theory Spec2Isabelle
  imports Main "HOL-Library.Word"
begin

section \<open>The CONTINUATION flood client (client.go)\<close>

text \<open>
  The client is a script over two external libraries: the HTTP/2 framer
  (\<^verbatim>\<open>golang.org/x/net/http2\<close>) and the HPACK encoder. Both are outside the
  repository. What a library call returns is therefore an input of the model: the
  record \<open>env\<close> below holds the result of every call the driver makes, and the
  functions of client.go are functions of that record and of the process state.
  A header block is represented by the list of fields written into its encoder; the
  bytes HPACK makes of them are the library's business. Every library call is taken
  to return: a write that blocks for ever is not modelled.
\<close>

subsection \<open>Errors\<close>

text \<open>
  Go error values. \<open>wrapError\<close> is an error with a message that wraps another one
  (as \<^verbatim>\<open>*net.OpError\<close> wraps the \<^verbatim>\<open>syscall.Errno\<close> of a failed write);
  \<open>errors_Is\<close> walks that chain as \<^verbatim>\<open>errors.Is\<close> does. \<open>Error\<close> below is the
  message of an error; of the message table of \<^verbatim>\<open>syscall.Errno\<close> only the entry of
  EPIPE is kept.
\<close>

datatype error =
    EOF
  | Errno nat
  | errorString string
  | wrapError string error

definition EPIPE :: error where
  "EPIPE = Errno 32"

fun errors_Is :: "error \<Rightarrow> error \<Rightarrow> bool" where
  "errors_Is (wrapError m e) target = (wrapError m e = target \<or> errors_Is e target)"
| "errors_Is e target = (e = target)"

fun is_EPIPE :: "error option \<Rightarrow> bool" where
  "is_EPIPE None = False"
| "is_EPIPE (Some err) = errors_Is err EPIPE"

subsection \<open>Decimal output\<close>

definition digit :: "nat \<Rightarrow> char" where
  "digit d = ''0123456789'' ! d"

function itoa :: "nat \<Rightarrow> string" where
  "itoa n = (if n < 10 then [digit n] else itoa (n div 10) @ [digit (n mod 10)])"
  by pat_completeness auto
termination
  by (relation "measure (\<lambda>n. n)") auto

declare itoa.simps [simp del]

fun Error :: "error \<Rightarrow> string" where
  "Error EOF = ''EOF''"
| "Error (Errno n) = (if n = 32 then ''broken pipe'' else ''errno '' @ itoa n)"
| "Error (errorString m) = m"
| "Error (wrapError m e) = m"

subsection \<open>Frames\<close>

type_synonym HeaderField = "string \<times> string"

text \<open>
  The frames the client writes or tells apart when it reads. The arguments of
  \<open>HeadersFrame\<close> are StreamID, BlockFragment, EndStream, EndHeaders (the fields of
  \<^verbatim>\<open>http2.HeadersFrameParam\<close>); those of \<open>ContinuationFrame\<close> are the
  arguments of \<^verbatim>\<open>WriteContinuation\<close>: streamID, endHeaders, headerBlockFragment.
  \<open>SettingsFrame\<close> carries the ACK flag and the settings (identifier, value).
  \<open>OtherFrame\<close> carries the Go type name of any other frame.
\<close>

datatype Frame =
    SettingsFrame bool "(nat \<times> nat) list"
  | HeadersFrame "32 word" "HeaderField list" bool bool
  | ContinuationFrame "32 word" bool "HeaderField list"
  | GoAwayFrame "32 word" nat
  | OtherFrame string

fun type_name :: "Frame \<Rightarrow> string" where
  "type_name (SettingsFrame a ps) = ''*http2.SettingsFrame''"
| "type_name (HeadersFrame i b es eh) = ''*http2.HeadersFrame''"
| "type_name (ContinuationFrame i eh b) = ''*http2.ContinuationFrame''"
| "type_name (GoAwayFrame i c) = ''*http2.GoAwayFrame''"
| "type_name (OtherFrame t) = t"

subsection \<open>Configuration, environment and process state\<close>

record URL =
  Host :: string
  Path :: string

text \<open>The command line flags the driver reads.\<close>

record flags =
  urlStr :: string
  verbose :: bool

text \<open>
  What the outside world answers. \<open>WriteContinuation ev k\<close> is the error (or
  \<open>None\<close>) of the driver's call of \<^verbatim>\<open>WriteContinuation\<close> made with
  \<open>contCount = k\<close>; in \<open>sendRequests\<close> that is the call number \<open>k\<close>, counted
  from 0. \<open>timer_C\<close> is the number of passes through the \<^verbatim>\<open>select\<close> of the flood
  loop that find the timer channel empty: the timer fires after \<open>timeLimit\<close>
  seconds, so this number is finite. \<open>ReadFrame\<close> lists the results of the
  background reader's calls of \<^verbatim>\<open>ReadFrame\<close>, in order.
\<close>

record env =
  url_Parse :: "string \<Rightarrow> error + URL"
  tls_Dial :: "error option"
  cc_Write :: "nat \<times> error option"
  WriteSettings :: "error option"
  first_ReadFrame :: "error + Frame"
  WriteSettingsAck :: "error option"
  WriteHeaders :: "error option"
  WriteContinuation :: "nat \<Rightarrow> error option"
  timer_C :: nat
  ReadFrame :: "(error + Frame) list"
  hpack_Len :: "HeaderField list \<Rightarrow> nat"
  frame_String :: "Frame \<Rightarrow> string"

text \<open>
  The package level variables (\<open>streamCounter\<close> is a uint32, the three counters
  are int32: both wrap modulo \<open>2 ^ 32\<close>), the synchronisation objects of \<open>main\<close>
  as far as one driver touches them (\<open>doneChan\<close>: the number of signals the driver
  has sent on the channel; \<open>wg\<close>: the WaitGroup counter), and what the process has
  put out: \<open>written\<close> lists the frames handed to the framer with the result of each
  write, \<open>stdout\<close> the texts printed by the driver goroutine, \<open>reader_stdout\<close>
  those of its background reader (one terminal in the program; how the two
  interleave is not modelled). \<open>reads\<close> counts the reader's calls of
  \<^verbatim>\<open>ReadFrame\<close> and \<open>reader_returned\<close> says whether the reader goroutine has
  returned.
\<close>

record state =
  streamCounter :: "32 word"
  sentHeaders :: "32 word"
  sentContinuation :: "32 word"
  recvFrames :: "32 word"
  doneChan :: nat
  wg :: int
  written :: "(Frame \<times> error option) list"
  stdout :: "string list"
  reader_stdout :: "string list"
  reads :: nat
  reader_returned :: bool

text \<open>The fields of \<^verbatim>\<open>http2Client\<close> that are not buffers, encoders or the connection.\<close>

record http2Client =
  url :: URL
  path :: string

subsection \<open>The client's functions\<close>

definition ClientPreface :: string where
  "ClientPreface = ''PRI * HTTP/2.0'' @ [CHR 0x0D, CHR 0x0A, CHR 0x0D, CHR 0x0A]
     @ ''SM'' @ [CHR 0x0D, CHR 0x0A, CHR 0x0D, CHR 0x0A]"

definition nl :: string where
  "nl = [CHR 0x0A]"

definition getLongString :: string where
  "getLongString = replicate 1000 CHR ''A''"

definition writeInitialSettings :: "env \<Rightarrow> state \<Rightarrow> error option \<times> state" where
  "writeInitialSettings ev s =
     (WriteSettings ev,
      s\<lparr>written := written s @ [(SettingsFrame False [], WriteSettings ev)]\<rparr>)"

definition writePreface :: "env \<Rightarrow> error option" where
  "writePreface ev =
     (case cc_Write ev of
        (n, Some err) \<Rightarrow> Some err
      | (n, None) \<Rightarrow>
          if n \<noteq> length ClientPreface
          then Some (errorString (''writing client preface, wrote '' @ itoa n
                 @ '' bytes; want '' @ itoa (length ClientPreface)))
          else None)"

definition writeSettingsAck :: "env \<Rightarrow> state \<Rightarrow> error option \<times> state" where
  "writeSettingsAck ev s =
     (let s' = s\<lparr>written := written s @ [(SettingsFrame True [], WriteSettingsAck ev)]\<rparr>
      in case WriteSettingsAck ev of
           Some err \<Rightarrow>
             (Some (errorString (''error writing ACK of server's SETTINGS: '' @ Error err)), s')
         | None \<Rightarrow> (None, s'))"

definition header_block :: "http2Client \<Rightarrow> HeaderField list" where
  "header_block hc =
     [('':method'', ''GET''), ('':path'', path hc), ('':scheme'', ''https''),
      ('':authority'', Host (url hc))]"

definition sendHeader :: "env \<Rightarrow> http2Client \<Rightarrow> state \<Rightarrow> 32 word \<times> state" where
  "sendHeader ev hc s =
     (let sizeCtr = hpack_Len ev (header_block hc);
          s1 = s\<lparr>stdout := stdout s @ [''Header size:  '' @ itoa sizeCtr @ nl]\<rparr>;
          streamID = streamCounter s1 + 2;
          s2 = s1\<lparr>streamCounter := streamID\<rparr>;
          s3 = s2\<lparr>written := written s2 @
                 [(HeadersFrame streamID (header_block hc) False False, WriteHeaders ev)]\<rparr>
      in case WriteHeaders ev of
           Some err \<Rightarrow>
             (streamID,
              s3\<lparr>stdout := stdout s3 @
                [''['' @ itoa (unat streamID) @ ''] Failed to send HEADERS: '' @ Error err]\<rparr>)
         | None \<Rightarrow>
             (streamID,
              s3\<lparr>sentHeaders := sentHeaders s3 + 1,
                 stdout := stdout s3 @
                [''['' @ itoa (unat streamID) @ ''] Sent HEADERS on stream ''
                   @ itoa (unat streamID) @ '', total size = '' @ itoa sizeCtr @ nl]\<rparr>))"

definition cont_block :: "nat \<Rightarrow> HeaderField list" where
  "cont_block contCount = [('':cont-header-#'' @ itoa contCount, getLongString)]"

definition sendContinuationFrames ::
  "flags \<Rightarrow> env \<Rightarrow> 32 word \<Rightarrow> nat \<Rightarrow> bool \<Rightarrow> state \<Rightarrow> error option \<times> state" where
  "sendContinuationFrames fl ev streamID contCount endHeader s =
     (let headerBlock = cont_block contCount;
          s1 = s\<lparr>written := written s @
                 [(ContinuationFrame streamID endHeader headerBlock,
                   WriteContinuation ev contCount)]\<rparr>
      in case WriteContinuation ev contCount of
           Some err \<Rightarrow>
             (Some err,
              if verbose fl
              then s1\<lparr>stdout := stdout s1 @
                     [''['' @ itoa (unat streamID) @ ''] Failed to send CONTINUATION: ''
                        @ Error err @ nl]\<rparr>
              else s1)
         | None \<Rightarrow>
             (None,
              let s2 = s1\<lparr>sentContinuation := sentContinuation s1 + 1\<rparr>
              in if verbose fl
                 then s2\<lparr>stdout := stdout s2 @
                        [''['' @ itoa (unat streamID) @ ''] Sent CONTINUATION on stream ''
                           @ itoa (unat streamID) @ nl]\<rparr>
                 else s2))"

definition not_vulnerable :: string where
  "not_vulnerable =
     ''connection closed by the server when sending CONTINUATION frame. Server is not likely vulnerable''
     @ nl"

text \<open>
  The \<^verbatim>\<open>for { select { ... } }\<close> loop of \<open>sendRequests\<close>. The first argument is
  the number of passes that still find the timer channel empty (the \<^verbatim>\<open>default\<close>
  branch); at 0 the timer has fired and the \<^verbatim>\<open>case <-timer.C\<close> branch runs.
\<close>

fun flood :: "flags \<Rightarrow> env \<Rightarrow> 32 word \<Rightarrow> nat \<Rightarrow> nat \<Rightarrow> state \<Rightarrow> state" where
  "flood fl ev streamID 0 continuationCount s =
     snd (sendContinuationFrames fl ev streamID continuationCount True s)"
| "flood fl ev streamID (Suc t) continuationCount s =
     (case sendContinuationFrames fl ev streamID continuationCount False s of
        (err, s') \<Rightarrow>
          if is_EPIPE err
          then s'\<lparr>stdout := stdout s' @ [not_vulnerable]\<rparr>
          else flood fl ev streamID t (continuationCount + 1) s')"

text \<open>
  \<open>sendRequests\<close>: the header, the loop, and on return the deferred send on
  \<open>doneChan\<close>.
\<close>

definition sendRequests :: "flags \<Rightarrow> env \<Rightarrow> http2Client \<Rightarrow> state \<Rightarrow> state" where
  "sendRequests fl ev hc s =
     (case sendHeader ev hc s of
        (streamID, s1) \<Rightarrow>
          (let s2 = flood fl ev streamID (timer_C ev) 0 s1
           in s2\<lparr>doneChan := doneChan s2 + 1\<rparr>))"

definition wantSettings :: "env \<Rightarrow> error + Frame" where
  "wantSettings ev =
     (case first_ReadFrame ev of
        Inl err \<Rightarrow>
          Inl (errorString (''error while expecting a SETTINGS frame: '' @ Error err))
      | Inr f \<Rightarrow>
          (case f of
             SettingsFrame a ps \<Rightarrow> Inr f
           | _ \<Rightarrow> Inl (errorString (''got a '' @ type_name f @ ''; want *SettingsFrame''))))"

text \<open>
  \<open>NewHttp2Client\<close>: \<open>Inl\<close> is the message of \<^verbatim>\<open>log.Fatalf\<close>, which ends the
  process.
\<close>

definition NewHttp2Client :: "env \<Rightarrow> string \<Rightarrow> string + http2Client" where
  "NewHttp2Client ev urlStr' =
     (case url_Parse ev urlStr' of
        Inl err \<Rightarrow> Inl (''Failed to parse URL: '' @ Error err)
      | Inr serverURL \<Rightarrow>
          (let path' = (if Path serverURL = [] then ''/'' else Path serverURL)
           in case tls_Dial ev of
                Some err \<Rightarrow> Inl (''Failed to dial: '' @ Error err)
              | None \<Rightarrow> Inr \<lparr>url = serverURL, path = path'\<rparr>))"

text \<open>
  The goroutine that reads frames, run over the results of its \<^verbatim>\<open>ReadFrame\<close>
  calls. When the list is used up the reader is blocked in the next call.
\<close>

definition received_line :: "env \<Rightarrow> Frame \<Rightarrow> string" where
  "received_line ev frame =
     (case frame of
        HeadersFrame i b es eh \<Rightarrow> ''received HEADERS frame: '' @ frame_String ev frame @ nl
      | GoAwayFrame i c \<Rightarrow> ''received GOAWAY frame: '' @ frame_String ev frame @ nl
      | _ \<Rightarrow> ''received frame: '' @ frame_String ev frame @ nl)"

fun reader :: "env \<Rightarrow> (error + Frame) list \<Rightarrow> state \<Rightarrow> state" where
  "reader ev [] s = s"
| "reader ev (Inl err # rs) s =
     (if err = EOF
      then s\<lparr>reads := reads s + 1, reader_returned := True\<rparr>
      else reader ev rs
             (s\<lparr>reads := reads s + 1,
                reader_stdout := reader_stdout s @ [''Failed to read frame: '' @ Error err]\<rparr>))"
| "reader ev (Inr frame # rs) s =
     reader ev rs
       (s\<lparr>reads := reads s + 1,
          recvFrames := recvFrames s + 1,
          reader_stdout := reader_stdout s @ [received_line ev frame]\<rparr>)"

text \<open>
  A driver either ends the process (\<^verbatim>\<open>log.Fatal\<close>: the message, then
  \<^verbatim>\<open>os.Exit(1)\<close>, so no deferred call runs) or returns.
\<close>

datatype outcome =
    Exit string state
  | Returned state

text \<open>
  \<open>testContinuationFlood\<close>, run without another driver's step in between (how
  drivers interleave on the shared variables is the subject of the section on the
  process). The reader goroutine is started before \<open>sendRequests\<close> and runs beside
  it; it writes only \<open>recvFrames\<close>, \<open>reads\<close>, \<open>reader_stdout\<close> and
  \<open>reader_returned\<close>, which \<open>sendRequests\<close> neither reads nor writes. The
  deferred \<^verbatim>\<open>wg.Done()\<close> runs when the function returns.
\<close>

definition testContinuationFlood :: "flags \<Rightarrow> env \<Rightarrow> state \<Rightarrow> outcome" where
  "testContinuationFlood fl ev s =
     (let s0 = s\<lparr>streamCounter := 1\<rparr>
      in case NewHttp2Client ev (urlStr fl) of
           Inl msg \<Rightarrow> Exit msg s0
         | Inr hc \<Rightarrow>
             (case writePreface ev of
                Some err \<Rightarrow> Exit (''Failed to send client preface: '' @ Error err) s0
              | None \<Rightarrow>
                  (case writeInitialSettings ev s0 of
                     (Some err, s1) \<Rightarrow> Exit (''Failed to write settings: '' @ Error err) s1
                   | (None, s1) \<Rightarrow>
                       (case wantSettings ev of
                          Inl err \<Rightarrow> Exit (Error err) s1
                        | Inr sf \<Rightarrow>
                            (case writeSettingsAck ev s1 of
                               (Some err, s2) \<Rightarrow> Exit (Error err) s2
                             | (None, s2) \<Rightarrow>
                                 (let s3 = reader ev (ReadFrame ev) s2;
                                      s4 = sendRequests fl ev hc s3
                                  in Returned (s4\<lparr>wg := wg s4 - 1\<rparr>)))))))"

subsection \<open>Names for the statements\<close>

text \<open>
  \<open>broken ev k\<close>: the transport answers the CONTINUATION send number \<open>k\<close> with
  a broken pipe. \<open>cont\<close> is the entry that send leaves in \<open>written\<close>, and
  \<open>headers\<close> the entry of the HEADERS send. \<open>cont_log\<close> is what one call of
  \<open>sendContinuationFrames\<close> prints.
\<close>

definition broken :: "env \<Rightarrow> nat \<Rightarrow> bool" where
  "broken ev k = is_EPIPE (WriteContinuation ev k)"

definition cont :: "env \<Rightarrow> 32 word \<Rightarrow> bool \<Rightarrow> nat \<Rightarrow> Frame \<times> error option" where
  "cont ev streamID endHeader k =
     (ContinuationFrame streamID endHeader (cont_block k), WriteContinuation ev k)"

definition headers :: "env \<Rightarrow> http2Client \<Rightarrow> 32 word \<Rightarrow> Frame \<times> error option" where
  "headers ev hc streamID =
     (HeadersFrame streamID (header_block hc) False False, WriteHeaders ev)"

definition cont_log :: "flags \<Rightarrow> env \<Rightarrow> 32 word \<Rightarrow> nat \<Rightarrow> string list" where
  "cont_log fl ev streamID k =
     (if verbose fl
      then [case WriteContinuation ev k of
              Some err \<Rightarrow> ''['' @ itoa (unat streamID) @ ''] Failed to send CONTINUATION: ''
                            @ Error err @ nl
            | None \<Rightarrow> ''['' @ itoa (unat streamID) @ ''] Sent CONTINUATION on stream ''
                            @ itoa (unat streamID) @ nl]
      else [])"

fun end_headers :: "Frame \<times> error option \<Rightarrow> bool" where
  "end_headers (ContinuationFrame i eh b, r) = eh"
| "end_headers (HeadersFrame i b es eh, r) = eh"
| "end_headers (f, r) = False"

fun is_frame_error :: "error + Frame \<Rightarrow> bool" where
  "is_frame_error (Inl err) = True"
| "is_frame_error (Inr f) = False"

definition read_line :: "env \<Rightarrow> error + Frame \<Rightarrow> string" where
  "read_line ev r =
     (case r of
        Inl err \<Rightarrow> ''Failed to read frame: '' @ Error err
      | Inr frame \<Rightarrow> received_line ev frame)"

text \<open>The header blocks of the CONTINUATION frames in a list of writes, in order.\<close>

fun cont_blocks :: "(Frame \<times> error option) list \<Rightarrow> HeaderField list list" where
  "cont_blocks [] = []"
| "cont_blocks ((ContinuationFrame i eh b, r) # ws) = b # cont_blocks ws"
| "cont_blocks (w # ws) = cont_blocks ws"

text \<open>
  The set-up of a driver passes: the URL parses, the dial succeeds, the whole
  preface is written, SETTINGS is written, the first frame read is a SETTINGS frame
  and its acknowledgement is written.
\<close>

definition setup_succeeds :: "flags \<Rightarrow> env \<Rightarrow> bool" where
  "setup_succeeds fl ev =
     ((case url_Parse ev (urlStr fl) of Inl err \<Rightarrow> False | Inr u \<Rightarrow> True) \<and>
      tls_Dial ev = None \<and>
      cc_Write ev = (length ClientPreface, None) \<and>
      WriteSettings ev = None \<and>
      (case first_ReadFrame ev of Inr (SettingsFrame a ps) \<Rightarrow> True | _ \<Rightarrow> False) \<and>
      WriteSettingsAck ev = None)"

subsection \<open>Concrete peers\<close>

text \<open>
  \<open>responsive_peer\<close> completes the handshake and accepts every write; the timer
  fires after two passes of the loop. \<open>patched_peer\<close> has closed the connection
  when the fourth CONTINUATION frame is written: that write and all later ones fail
  with a broken pipe, wrapped as the net package does.
\<close>

definition flags0 :: flags where
  "flags0 = \<lparr>urlStr = ''https://localhost:8443'', verbose = False\<rparr>"

definition state0 :: state where
  "state0 = \<lparr>streamCounter = 1, sentHeaders = 0, sentContinuation = 0, recvFrames = 0,
     doneChan = 0, wg = 1, written = [], stdout = [], reader_stdout = [], reads = 0,
     reader_returned = False\<rparr>"

definition client0 :: http2Client where
  "client0 = \<lparr>url = \<lparr>Host = ''localhost:8443'', Path = []\<rparr>, path = ''/''\<rparr>"

definition responsive_peer :: env where
  "responsive_peer =
     \<lparr>url_Parse = (\<lambda>u. Inr \<lparr>Host = ''localhost:8443'', Path = []\<rparr>),
      tls_Dial = None,
      cc_Write = (24, None),
      WriteSettings = None,
      first_ReadFrame = Inr (SettingsFrame False [(3, 250)]),
      WriteSettingsAck = None,
      WriteHeaders = None,
      WriteContinuation = (\<lambda>k. None),
      timer_C = 2,
      ReadFrame = [],
      hpack_Len = (\<lambda>fs. 33),
      frame_String = type_name\<rparr>"

definition broken_pipe :: error where
  "broken_pipe = wrapError ''write tcp 127.0.0.1:8443: write: broken pipe'' EPIPE"

definition patched_peer :: env where
  "patched_peer =
     responsive_peer
       \<lparr>WriteContinuation := (\<lambda>k. if 3 \<le> k then Some broken_pipe else None),
        timer_C := 10\<rparr>"

text \<open>\<open>closed_peer\<close> has closed the connection right after the handshake.\<close>

definition closed_peer :: env where
  "closed_peer =
     responsive_peer
       \<lparr>WriteHeaders := Some broken_pipe, WriteContinuation := (\<lambda>k. Some broken_pipe)\<rparr>"

section \<open>The process: main and its drivers on the shared variables\<close>

text \<open>
  \<open>main\<close> starts \<open>numConns\<close> goroutines that run \<open>testContinuationFlood\<close>. They
  share \<open>streamCounter\<close>, the WaitGroup and \<open>doneChan\<close>. The model is an
  interleaving of atomic steps on these variables; a schedule names which goroutine
  moves next. The steps of \<open>main\<close> (by its program counter):
  \<^item> \<open>Launching i\<close>: the \<^verbatim>\<open>go testContinuationFlood(...)\<close> of loop index \<open>i\<close>
    (the sleep that follows only delays \<open>main\<close>), or the end of the loop;
  \<^item> \<open>Waiting\<close>: \<^verbatim>\<open>wg.Wait()\<close>, which returns only at counter 0;
  \<^item> \<open>Closing\<close>: \<^verbatim>\<open>close(doneChan)\<close>;
  \<^item> \<open>Receiving i\<close>: the \<^verbatim>\<open><-doneChan\<close> of loop index \<open>i\<close>. A buffered
    signal is taken; on a closed and empty channel the receive returns the zero
    value at once, which is not a signal of a driver; on an open and empty channel
    it blocks;
  \<^item> \<open>Summary\<close>: \<^verbatim>\<open>printSummary()\<close> has been called.

  The steps of a driver:
  \<^item> \<open>Started\<close>: \<^verbatim>\<open>streamCounter = 1\<close> (taken as one atomic store);
  \<^item> \<open>Seeded\<close>: the set-up (dial, preface, SETTINGS exchange), then
    \<^verbatim>\<open>atomic.AddUint32(&streamCounter, 2)\<close> in \<open>sendHeader\<close>. A set-up that fails
    is the step \<open>StepFatal\<close>: \<^verbatim>\<open>log.Fatal\<close> ends the whole process;
  \<^item> \<open>Flooding\<close>: the flood loop, then the deferred \<^verbatim>\<open>doneChan <- struct{}{}\<close>:
    it blocks on a full buffer and panics on a closed channel;
  \<^item> \<open>Signalled\<close>: the deferred \<^verbatim>\<open>wg.Done()\<close>, which panics on a negative counter.

  In the record below \<open>shared_counter\<close> is \<open>streamCounter\<close>, \<open>wg_counter\<close> the
  counter of the WaitGroup, \<open>chan_len\<close> and \<open>chan_closed\<close> the buffer and the state
  of \<open>doneChan\<close> (its capacity is \<open>numConns\<close>), and \<open>signals_received\<close> the
  number of signals \<open>main\<close> has taken from it. \<open>allocated\<close> records each
  allocation (driver, stream identifier) in the order they happen, and
  \<open>signals_sent\<close> the number of sends on \<open>doneChan\<close> each driver has made.
\<close>

datatype main_pc = Launching nat | Waiting | Closing | Receiving nat | Summary

datatype driver_pc = NotStarted | Started | Seeded | Flooding | Signalled | Finished

datatype run_state = Running | Exited | Panicked

datatype action = StepMain | StepDriver nat | StepFatal nat

record process =
  numConns :: nat
  status :: run_state
  pc_main :: main_pc
  pc_driver :: "driver_pc list"
  shared_counter :: "32 word"
  wg_counter :: int
  chan_len :: nat
  chan_closed :: bool
  signals_received :: nat
  signals_sent :: "nat list"
  allocated :: "(nat \<times> 32 word) list"

text \<open>
  The state when \<open>main\<close> enters its launch loop: \<^verbatim>\<open>wg.Add(numConns)\<close> and
  \<^verbatim>\<open>make(chan struct{}, numConns)\<close> are done, \<open>streamCounter\<close> has Go's zero value.
\<close>

definition init_process :: "nat \<Rightarrow> process" where
  "init_process n =
     \<lparr>numConns = n, status = Running, pc_main = Launching 0,
      pc_driver = replicate n NotStarted, shared_counter = 0, wg_counter = int n,
      chan_len = 0, chan_closed = False, signals_received = 0,
      signals_sent = replicate n 0, allocated = []\<rparr>"

definition main_step :: "process \<Rightarrow> process option" where
  "main_step p =
     (case pc_main p of
        Launching i \<Rightarrow>
          if i < numConns p
          then Some (p\<lparr>pc_driver := (pc_driver p)[i := Started], pc_main := Launching (i + 1)\<rparr>)
          else Some (p\<lparr>pc_main := Waiting\<rparr>)
      | Waiting \<Rightarrow> if wg_counter p = 0 then Some (p\<lparr>pc_main := Closing\<rparr>) else None
      | Closing \<Rightarrow> Some (p\<lparr>chan_closed := True, pc_main := Receiving 0\<rparr>)
      | Receiving i \<Rightarrow>
          if i < numConns p
          then if 0 < chan_len p
               then Some (p\<lparr>chan_len := chan_len p - 1,
                            signals_received := signals_received p + 1,
                            pc_main := Receiving (i + 1)\<rparr>)
               else if chan_closed p then Some (p\<lparr>pc_main := Receiving (i + 1)\<rparr>)
               else None
          else Some (p\<lparr>pc_main := Summary\<rparr>)
      | Summary \<Rightarrow> None)"

definition driver_step :: "nat \<Rightarrow> process \<Rightarrow> process option" where
  "driver_step i p =
     (if length (pc_driver p) \<le> i then None
      else case pc_driver p ! i of
        NotStarted \<Rightarrow> None
      | Started \<Rightarrow> Some (p\<lparr>shared_counter := 1, pc_driver := (pc_driver p)[i := Seeded]\<rparr>)
      | Seeded \<Rightarrow>
          (let streamID = shared_counter p + 2
           in Some (p\<lparr>shared_counter := streamID,
                      allocated := allocated p @ [(i, streamID)],
                      pc_driver := (pc_driver p)[i := Flooding]\<rparr>))
      | Flooding \<Rightarrow>
          if chan_closed p then Some (p\<lparr>status := Panicked\<rparr>)
          else if chan_len p < numConns p
          then Some (p\<lparr>chan_len := chan_len p + 1,
                       signals_sent := (signals_sent p)[i := signals_sent p ! i + 1],
                       pc_driver := (pc_driver p)[i := Signalled]\<rparr>)
          else None
      | Signalled \<Rightarrow>
          if wg_counter p - 1 < 0 then Some (p\<lparr>status := Panicked\<rparr>)
          else Some (p\<lparr>wg_counter := wg_counter p - 1,
                       pc_driver := (pc_driver p)[i := Finished]\<rparr>)
      | Finished \<Rightarrow> None)"

definition fatal_step :: "nat \<Rightarrow> process \<Rightarrow> process option" where
  "fatal_step i p =
     (if i < length (pc_driver p) \<and> pc_driver p ! i = Seeded
      then Some (p\<lparr>status := Exited\<rparr>) else None)"

text \<open>One step; \<open>None\<close> when the goroutine cannot move. A process that has exited or panicked does not move.\<close>

definition step :: "action \<Rightarrow> process \<Rightarrow> process option" where
  "step a p =
     (if status p \<noteq> Running then None
      else case a of
        StepMain \<Rightarrow> main_step p
      | StepDriver i \<Rightarrow> driver_step i p
      | StepFatal i \<Rightarrow> fatal_step i p)"

fun run :: "action list \<Rightarrow> process \<Rightarrow> process option" where
  "run [] p = Some p"
| "run (a # as) p = (case step a p of None \<Rightarrow> None | Some p' \<Rightarrow> run as p')"

definition stream_ids :: "process \<Rightarrow> 32 word list" where
  "stream_ids p = map snd (allocated p)"

definition past_signal :: "driver_pc \<Rightarrow> bool" where
  "past_signal d = (d = Signalled \<or> d = Finished)"

subsection \<open>Invariants of the process\<close>

text \<open>
  These invariants carry the proofs about the process. \<open>sync_inv\<close> ties the WaitGroup
  counter, the channel and the signals to the program counters: the counter is
  \<open>numConns\<close> less the drivers that have finished; until the channel is closed it
  holds one signal for each driver that has sent; \<open>main\<close> is past \<^verbatim>\<open>wg.Wait()\<close>
  only when every driver has finished. \<open>seed_inv\<close> says that once a driver has
  stored the seed the counter is odd, and that every allocated identifier is odd.
  \<open>alloc_inv\<close> says that only drivers past \<open>sendHeader\<close> have an allocation, each
  at most one, and that before the first allocation the counter is the seed.
  \<open>launched_inv\<close> says that \<open>main\<close> has started every driver its launch loop has
  passed. \<open>flow_from q\<close> relates a state to an earlier state \<open>q\<close> in which no driver
  has its store of the seed still to come: every allocation since \<open>q\<close> has added 2
  to the counter, and the identifiers allocated since \<open>q\<close> follow the counter of \<open>q\<close>
  in steps of 2. \<open>rank\<close> measures the steps that \<open>main\<close> and the drivers have still
  to make; it shows that a running process can always be taken on to the summary.
\<close>

definition sync_inv :: "process \<Rightarrow> bool" where
  "sync_inv p \<longleftrightarrow>
     length (pc_driver p) = numConns p \<and>
     length (signals_sent p) = numConns p \<and>
     status p \<noteq> Panicked \<and>
     wg_counter p = int (numConns p) - int (length (filter (\<lambda>d. d = Finished) (pc_driver p))) \<and>
     (\<not> chan_closed p \<longrightarrow> chan_len p = length (filter past_signal (pc_driver p))) \<and>
     (\<forall>i<numConns p. signals_sent p ! i = (if past_signal (pc_driver p ! i) then 1 else 0)) \<and>
     (case pc_main p of
        Launching i \<Rightarrow>
          \<not> chan_closed p \<and> signals_received p = 0 \<and>
          (\<forall>j. i \<le> j \<and> j < numConns p \<longrightarrow> pc_driver p ! j = NotStarted)
      | Waiting \<Rightarrow> \<not> chan_closed p \<and> signals_received p = 0
      | Closing \<Rightarrow>
          \<not> chan_closed p \<and> signals_received p = 0 \<and> status p = Running \<and>
          (\<forall>d \<in> set (pc_driver p). d = Finished)
      | Receiving i \<Rightarrow>
          chan_closed p \<and> status p = Running \<and> (\<forall>d \<in> set (pc_driver p). d = Finished) \<and>
          signals_received p = i \<and> chan_len p + i = numConns p
      | Summary \<Rightarrow>
          chan_closed p \<and> status p = Running \<and> (\<forall>d \<in> set (pc_driver p). d = Finished) \<and>
          signals_received p = numConns p)"

definition seed_inv :: "process \<Rightarrow> bool" where
  "seed_inv p \<longleftrightarrow>
     ((\<forall>d \<in> set (pc_driver p). d = NotStarted \<or> d = Started) \<or>
      odd (unat (shared_counter p))) \<and>
     (\<forall>v \<in> set (stream_ids p). odd (unat v))"

definition alloc_inv :: "process \<Rightarrow> bool" where
  "alloc_inv p \<longleftrightarrow>
     (\<forall>e \<in> set (allocated p). fst e < length (pc_driver p) \<and>
        pc_driver p ! fst e \<noteq> NotStarted \<and> pc_driver p ! fst e \<noteq> Started \<and>
        pc_driver p ! fst e \<noteq> Seeded) \<and>
     distinct (map fst (allocated p)) \<and>
     (allocated p = [] \<longrightarrow>
        (\<forall>d \<in> set (pc_driver p). d = NotStarted \<or> d = Started) \<or> shared_counter p = 1)"

definition flow_from :: "process \<Rightarrow> process \<Rightarrow> bool" where
  "flow_from q p \<longleftrightarrow>
     length (pc_driver p) = numConns p \<and>
     (\<forall>d \<in> set (pc_driver p). d \<noteq> NotStarted \<and> d \<noteq> Started) \<and>
     (\<forall>i. pc_main p = Launching i \<longrightarrow> numConns p \<le> i) \<and>
     (\<exists>new. allocated p = allocated q @ new \<and>
        shared_counter p = shared_counter q + 2 * of_nat (length new) \<and>
        map snd new = map (\<lambda>k. shared_counter q + 2 * of_nat (Suc k)) [0..<length new] \<and>
        length new + length (filter (\<lambda>d. d = Seeded) (pc_driver p)) \<le> numConns p)"

definition launched_inv :: "process \<Rightarrow> bool" where
  "launched_inv p \<longleftrightarrow>
     (case pc_main p of
        Launching i \<Rightarrow> (\<forall>j<i. j < length (pc_driver p) \<longrightarrow> pc_driver p ! j \<noteq> NotStarted)
      | _ \<Rightarrow> (\<forall>d \<in> set (pc_driver p). d \<noteq> NotStarted))"

fun rank_main :: "nat \<Rightarrow> main_pc \<Rightarrow> nat" where
  "rank_main n (Launching i) = (n - i) + n + 4"
| "rank_main n Waiting = n + 3"
| "rank_main n Closing = n + 2"
| "rank_main n (Receiving i) = (n - i) + 1"
| "rank_main n Summary = 0"

fun rank_driver :: "driver_pc \<Rightarrow> nat" where
  "rank_driver NotStarted = 4"
| "rank_driver Started = 4"
| "rank_driver Seeded = 3"
| "rank_driver Flooding = 2"
| "rank_driver Signalled = 1"
| "rank_driver Finished = 0"

definition rank :: "process \<Rightarrow> nat" where
  "rank p = rank_main (numConns p) (pc_main p) + sum_list (map rank_driver (pc_driver p))"

section \<open>Properties of one driver\<close>

subsection \<open>The sends and the loop\<close>

lemma length_getLongString: "length getLongString = 1000"
  by (simp add: getLongString_def)

lemma fst_sendContinuationFrames:
  "fst (sendContinuationFrames fl ev i c e s) = WriteContinuation ev c"
  by (simp add: sendContinuationFrames_def Let_def split: option.split)

lemma written_sendContinuationFrames:
  "written (snd (sendContinuationFrames fl ev i c e s)) = written s @ [cont ev i e c]"
  by (simp add: sendContinuationFrames_def cont_def Let_def split: option.split)

lemma stdout_sendContinuationFrames:
  "stdout (snd (sendContinuationFrames fl ev i c e s)) = stdout s @ cont_log fl ev i c"
  by (simp add: sendContinuationFrames_def cont_log_def Let_def split: option.split)

lemma doneChan_sendContinuationFrames:
  "doneChan (snd (sendContinuationFrames fl ev i c e s)) = doneChan s"
  by (simp add: sendContinuationFrames_def Let_def split: option.split)

lemma sentContinuation_sendContinuationFrames:
  "sentContinuation (snd (sendContinuationFrames fl ev i c e s)) =
     (if WriteContinuation ev c = None then sentContinuation s + 1 else sentContinuation s)"
  by (simp add: sendContinuationFrames_def Let_def split: option.split)

lemma sendContinuationFrames_cases:
  obtains s' where "sendContinuationFrames fl ev i c e s = (WriteContinuation ev c, s')"
    and "written s' = written s @ [cont ev i e c]"
    and "stdout s' = stdout s @ cont_log fl ev i c"
    and "doneChan s' = doneChan s"
proof -
  obtain err s' where r: "sendContinuationFrames fl ev i c e s = (err, s')"
    by (cases "sendContinuationFrames fl ev i c e s")
  have "err = WriteContinuation ev c"
    using fst_sendContinuationFrames [of fl ev i c e s] r by simp
  moreover have "written s' = written s @ [cont ev i e c]"
    using written_sendContinuationFrames [of fl ev i c e s] r by simp
  moreover have "stdout s' = stdout s @ cont_log fl ev i c"
    using stdout_sendContinuationFrames [of fl ev i c e s] r by simp
  moreover have "doneChan s' = doneChan s"
    using doneChan_sendContinuationFrames [of fl ev i c e s] r by simp
  ultimately show thesis using that r by simp
qed

lemma flood_doneChan: "doneChan (flood fl ev i t c s) = doneChan s"
proof (induction t arbitrary: c s)
  case 0
  show ?case by (simp add: doneChan_sendContinuationFrames)
next
  case (Suc t)
  obtain s' where r: "sendContinuationFrames fl ev i c False s = (WriteContinuation ev c, s')"
    and d: "doneChan s' = doneChan s"
    by (rule sendContinuationFrames_cases)
  show ?case using r d Suc.IH [of "c + 1" s'] by simp
qed

lemma flood_timer:
  "(\<And>j. j < t \<Longrightarrow> \<not> broken ev (c + j)) \<Longrightarrow>
   written (flood fl ev i t c s) =
     written s @ map (cont ev i False) [c..<c + t] @ [cont ev i True (c + t)] \<and>
   stdout (flood fl ev i t c s) =
     stdout s @ concat (map (cont_log fl ev i) [c..<Suc (c + t)])"
proof (induction t arbitrary: c s)
  case 0
  show ?case
    by (simp add: written_sendContinuationFrames stdout_sendContinuationFrames)
next
  case (Suc t)
  obtain s' where r: "sendContinuationFrames fl ev i c False s = (WriteContinuation ev c, s')"
    and w: "written s' = written s @ [cont ev i False c]"
    and o: "stdout s' = stdout s @ cont_log fl ev i c"
    by (rule sendContinuationFrames_cases)
  from Suc.prems [of 0] have nb: "\<not> is_EPIPE (WriteContinuation ev c)"
    by (simp add: broken_def)
  have "\<And>j. j < t \<Longrightarrow> \<not> broken ev (Suc c + j)"
    using Suc.prems [of "Suc j" for j] by simp
  from Suc.IH [OF this, of s']
  show ?case using r nb w o by (simp add: upt_rec [of c])
qed

lemma flood_broken:
  "j < t \<Longrightarrow> broken ev (c + j) \<Longrightarrow> (\<And>k. k < j \<Longrightarrow> \<not> broken ev (c + k)) \<Longrightarrow>
   written (flood fl ev i t c s) = written s @ map (cont ev i False) [c..<Suc (c + j)] \<and>
   stdout (flood fl ev i t c s) =
     stdout s @ concat (map (cont_log fl ev i) [c..<Suc (c + j)]) @ [not_vulnerable]"
proof (induction t arbitrary: c s j)
  case 0
  then show ?case by simp
next
  case (Suc t)
  obtain s' where r: "sendContinuationFrames fl ev i c False s = (WriteContinuation ev c, s')"
    and w: "written s' = written s @ [cont ev i False c]"
    and o: "stdout s' = stdout s @ cont_log fl ev i c"
    by (rule sendContinuationFrames_cases)
  show ?case
  proof (cases j)
    case 0
    with Suc.prems have "is_EPIPE (WriteContinuation ev c)" by (simp add: broken_def)
    then show ?thesis using r w o 0 by simp
  next
    case (Suc j')
    from Suc.prems(3) [of 0] Suc have nb: "\<not> is_EPIPE (WriteContinuation ev c)"
      by (simp add: broken_def)
    have a: "j' < t" using Suc Suc.prems(1) by simp
    have b: "broken ev (Suc c + j')" using Suc Suc.prems(2) by simp
    have c: "\<And>k. k < j' \<Longrightarrow> \<not> broken ev (Suc c + k)"
      using Suc.prems(3) [of "Suc k" for k] Suc by simp
    from Suc.IH [OF a b c, of s']
    show ?thesis using r nb w o Suc by (simp add: upt_rec [of c])
  qed
qed

lemma find_upt_None: "List.find P [0..<t] = None \<longleftrightarrow> (\<forall>j<t. \<not> P j)"
  by (auto simp: find_None_iff)

lemma find_upt_Some:
  "List.find P [0..<t] = Some j \<longleftrightarrow> j < t \<and> P j \<and> (\<forall>k<j. \<not> P k)"
  by (auto simp: find_Some_iff)

lemma fst_sendHeader: "fst (sendHeader ev hc s) = streamCounter s + 2"
  by (simp add: sendHeader_def Let_def split: option.split)

lemma written_sendHeader:
  "written (snd (sendHeader ev hc s)) = written s @ [headers ev hc (streamCounter s + 2)]"
  by (simp add: sendHeader_def headers_def Let_def split: option.split)

lemma doneChan_sendHeader: "doneChan (snd (sendHeader ev hc s)) = doneChan s"
  by (simp add: sendHeader_def Let_def split: option.split)

lemma sendRequests_flood:
  "sendRequests fl ev hc s =
     (flood fl ev (streamCounter s + 2) (timer_C ev) 0 (snd (sendHeader ev hc s)))
       \<lparr>doneChan := doneChan s + 1\<rparr>"
proof -
  obtain i s1 where r: "sendHeader ev hc s = (i, s1)"
    by (cases "sendHeader ev hc s")
  have i: "i = streamCounter s + 2" using fst_sendHeader [of ev hc s] r by simp
  have d: "doneChan s1 = doneChan s" using doneChan_sendHeader [of ev hc s] r by simp
  show ?thesis by (simp add: sendRequests_def r i d Let_def flood_doneChan)
qed

lemma written_sendRequests:
  "written (sendRequests fl ev hc s) =
     written s @ headers ev hc (streamCounter s + 2) #
       (case List.find (broken ev) [0..<timer_C ev] of
          None \<Rightarrow> map (cont ev (streamCounter s + 2) False) [0..<timer_C ev]
                    @ [cont ev (streamCounter s + 2) True (timer_C ev)]
        | Some j \<Rightarrow> map (cont ev (streamCounter s + 2) False) [0..<Suc j])"
proof (cases "List.find (broken ev) [0..<timer_C ev]")
  case None
  then have "\<And>j. j < timer_C ev \<Longrightarrow> \<not> broken ev (0 + j)" by (simp add: find_upt_None)
  from flood_timer [OF this] show ?thesis
    using None by (simp add: sendRequests_flood written_sendHeader)
next
  case (Some j)
  then have "j < timer_C ev" "broken ev (0 + j)" "\<And>k. k < j \<Longrightarrow> \<not> broken ev (0 + k)"
    by (simp_all add: find_upt_Some)
  from flood_broken [OF this] show ?thesis
    using Some by (simp add: sendRequests_flood written_sendHeader)
qed

lemma end_headers_cont [simp]: "end_headers (cont ev i b k) = b"
  by (simp add: cont_def)

lemma end_headers_headers [simp]: "end_headers (headers ev hc i) = False"
  by (simp add: headers_def)

lemma fst_cont [simp]: "fst (cont ev i b k) = ContinuationFrame i b (cont_block k)"
  by (simp add: cont_def)

lemma fst_headers [simp]: "fst (headers ev hc i) = HeadersFrame i (header_block hc) False False"
  by (simp add: headers_def)

lemma length_ClientPreface: "length ClientPreface = 24"
  by (simp add: ClientPreface_def)

lemma is_EPIPE_broken_pipe: "errors_Is broken_pipe EPIPE"
  by (simp add: broken_pipe_def EPIPE_def)

subsection \<open>C1: the frames of one driver, in order\<close>

text \<open>
  Claim C1. In every run of \<open>sendRequests\<close> the frames the driver hands to the
  framer, after those written before, are: one HEADERS frame on the allocated stream
  with END_STREAM and END_HEADERS false; then CONTINUATION frames with END_HEADERS
  false, numbered \<open>0, 1, ...\<close>; then at most one CONTINUATION frame with END_HEADERS
  true. If no send of the loop meets a broken pipe before the timer fires, the loop
  makes \<open>timer_C ev\<close> sends and the frame with END_HEADERS true follows; if send
  number \<open>j\<close> is the first to meet a broken pipe, it is the last frame. So a frame
  with END_HEADERS true is among the driver's frames exactly when the timer fired
  with no broken pipe before. A frame counts as placed on the wire when the driver
  writes it to the framer, whatever the write returns.
\<close>

theorem driver_frame_sequence:
  "map fst (written (sendRequests fl ev hc s)) =
     map fst (written s) @
     HeadersFrame (streamCounter s + 2) (header_block hc) False False #
     (case List.find (broken ev) [0..<timer_C ev] of
        None \<Rightarrow>
          map (\<lambda>k. ContinuationFrame (streamCounter s + 2) False (cont_block k)) [0..<timer_C ev]
          @ [ContinuationFrame (streamCounter s + 2) True (cont_block (timer_C ev))]
      | Some j \<Rightarrow>
          map (\<lambda>k. ContinuationFrame (streamCounter s + 2) False (cont_block k)) [0..<Suc j])
   \<and> ((\<exists>f \<in> set (drop (length (written s)) (written (sendRequests fl ev hc s))). end_headers f)
        \<longleftrightarrow> (\<forall>j<timer_C ev. \<not> broken ev j))"
proof (cases "List.find (broken ev) [0..<timer_C ev]")
  case None
  have w: "written (sendRequests fl ev hc s) =
     written s @ headers ev hc (streamCounter s + 2) #
       map (cont ev (streamCounter s + 2) False) [0..<timer_C ev]
         @ [cont ev (streamCounter s + 2) True (timer_C ev)]"
    using written_sendRequests [of fl ev hc s] None by simp
  have n: "\<forall>j<timer_C ev. \<not> broken ev j" using None by (simp add: find_upt_None)
  show ?thesis using n by (simp add: w None comp_def)
next
  case (Some j)
  have w: "written (sendRequests fl ev hc s) =
     written s @ headers ev hc (streamCounter s + 2) #
       map (cont ev (streamCounter s + 2) False) [0..<Suc j]"
    using written_sendRequests [of fl ev hc s] Some by simp
  have n: "\<not> (\<forall>j<timer_C ev. \<not> broken ev j)" using Some by (auto simp: find_upt_Some)
  show ?thesis using n by (simp add: w Some comp_def del: upt_Suc)
qed

theorem driver_frame_sequence_witness:
  "map fst (written (sendRequests flags0 responsive_peer client0 state0)) =
     [HeadersFrame 3 (header_block client0) False False,
      ContinuationFrame 3 False (cont_block 0),
      ContinuationFrame 3 False (cont_block 1),
      ContinuationFrame 3 True (cont_block 2)]
   \<and> map fst (written (sendRequests flags0 patched_peer client0 state0)) =
     [HeadersFrame 3 (header_block client0) False False,
      ContinuationFrame 3 False (cont_block 0),
      ContinuationFrame 3 False (cont_block 1),
      ContinuationFrame 3 False (cont_block 2),
      ContinuationFrame 3 False (cont_block 3)]"
proof -
  have a: "List.find (broken responsive_peer) [0..<timer_C responsive_peer] = None"
    by (simp add: find_upt_None broken_def responsive_peer_def)
  have b: "List.find (broken patched_peer) [0..<timer_C patched_peer] = Some 3"
    by (simp add: find_upt_Some broken_def patched_peer_def responsive_peer_def
        is_EPIPE_broken_pipe)
  have t: "timer_C responsive_peer = 2" by (simp add: responsive_peer_def)
  have u: "[0..<2] = [0, 1::nat]" "[0..<Suc 3] = [0, 1, 2, 3::nat]" by code_simp+
  note 1 = conjunct1 [OF driver_frame_sequence
      [of flags0 responsive_peer client0 state0],
      unfolded a option.case, unfolded t u]
  note 2 = conjunct1 [OF driver_frame_sequence
      [of flags0 patched_peer client0 state0],
      unfolded b option.case, unfolded u]
  show ?thesis using 1 2 by (simp add: state0_def)
qed

lemma cont_blocks_append: "cont_blocks (xs @ ys) = cont_blocks xs @ cont_blocks ys"
  by (induction xs rule: cont_blocks.induct) simp_all

lemma cont_blocks_map_cont: "cont_blocks (map (cont ev i b) ks) = map cont_block ks"
  by (induction ks) (simp_all add: cont_def)

lemma cont_blocks_headers: "cont_blocks (headers ev hc i # ws) = cont_blocks ws"
  by (simp add: headers_def)

lemma cont_blocks_sendRequests:
  "cont_blocks (drop (length (written s)) (written (sendRequests fl ev hc s))) =
     map cont_block
       [0..<(case List.find (broken ev) [0..<timer_C ev] of
               None \<Rightarrow> Suc (timer_C ev) | Some j \<Rightarrow> Suc j)]"
  by (cases "List.find (broken ev) [0..<timer_C ev]")
    (simp_all add: written_sendRequests cont_blocks_headers cont_blocks_append
      cont_blocks_map_cont cont_def del: upt_Suc, simp_all add: cont_block_def)

subsection \<open>C8: the header block of a CONTINUATION frame\<close>

lemma digit_inj: "a < 10 \<Longrightarrow> b < 10 \<Longrightarrow> digit a = digit b \<Longrightarrow> a = b"
proof -
  assume a: "a < 10" and b: "b < 10" and e: "digit a = digit b"
  have d: "distinct ''0123456789''" by simp
  have l: "length ''0123456789'' = 10" by simp
  from e have "''0123456789'' ! a = ''0123456789'' ! b" by (simp only: digit_def)
  with d a b l show "a = b" by (simp only: nth_eq_iff_index_eq)
qed

lemma itoa_not_Nil: "itoa n \<noteq> []"
  by (subst itoa.simps) simp

lemma last_itoa: "last (itoa n) = digit (n mod 10)"
  by (subst itoa.simps) simp

lemma butlast_itoa: "butlast (itoa n) = (if n < 10 then [] else itoa (n div 10))"
  by (subst itoa.simps) simp

lemma itoa_inj: "itoa m = itoa n \<Longrightarrow> m = n"
proof (induction m arbitrary: n rule: itoa.induct)
  case (1 m)
  from "1.prems" have "last (itoa m) = last (itoa n)" by simp
  then have "digit (m mod 10) = digit (n mod 10)" by (simp only: last_itoa)
  then have md: "m mod 10 = n mod 10" by (intro digit_inj) simp_all
  from "1.prems" have bl: "butlast (itoa m) = butlast (itoa n)" by simp
  show ?case
  proof (cases "m < 10")
    case True
    show ?thesis
    proof (cases "n < 10")
      case n: True
      with True md show ?thesis by simp
    next
      case False
      with True bl have "itoa (n div 10) = []" by (simp add: butlast_itoa)
      with itoa_not_Nil show ?thesis by blast
    qed
  next
    case False
    show ?thesis
    proof (cases "n < 10")
      case True
      with False bl have "itoa (m div 10) = []" by (simp add: butlast_itoa)
      with itoa_not_Nil show ?thesis by blast
    next
      case n: False
      with False bl have "itoa (m div 10) = itoa (n div 10)" by (simp add: butlast_itoa)
      from "1.IH" [OF False this] have "m div 10 = n div 10" .
      with md show ?thesis by (metis div_mult_mod_eq)
    qed
  qed
qed

text \<open>
  Claim C8. The header blocks of the CONTINUATION frames one run of \<open>sendRequests\<close>
  writes are, in order, the blocks of one field each whose name is
  \<^verbatim>\<open>:cont-header-#\<close> followed by the decimal index \<open>0, 1, 2, ...\<close> of the frame and
  whose value is the filler string of 1000 bytes \<^verbatim>\<open>A\<close>. The final frame with
  END_HEADERS true carries the next index. Different indices give different names.
  (That the field is coded as a literal is the HPACK encoder's doing: a fresh
  encoder, whose dynamic table is empty, gets one field that is in no table.)
\<close>

theorem continuation_blocks:
  "cont_blocks (drop (length (written s)) (written (sendRequests fl ev hc s))) =
     map (\<lambda>k. [('':cont-header-#'' @ itoa k, getLongString)])
       [0..<(case List.find (broken ev) [0..<timer_C ev] of
               None \<Rightarrow> Suc (timer_C ev) | Some j \<Rightarrow> Suc j)]
   \<and> getLongString = replicate 1000 CHR ''A'' \<and> length getLongString = 1000
   \<and> inj itoa"
proof -
  have c: "cont_block = (\<lambda>k. [('':cont-header-#'' @ itoa k, getLongString)])"
    by (rule ext) (simp add: cont_block_def)
  have i: "inj itoa" by (rule injI) (rule itoa_inj)
  show ?thesis
    by (simp add: cont_blocks_sendRequests c length_getLongString getLongString_def i)
qed

theorem continuation_blocks_witness:
  "cont_blocks (written (sendRequests flags0 responsive_peer client0 state0)) =
     [[('':cont-header-#0'', replicate 1000 CHR ''A'')],
      [('':cont-header-#1'', replicate 1000 CHR ''A'')],
      [('':cont-header-#2'', replicate 1000 CHR ''A'')]]"
proof -
  have a: "List.find (broken responsive_peer) [0..<timer_C responsive_peer] = None"
    by (simp add: find_upt_None broken_def responsive_peer_def)
  have t: "timer_C responsive_peer = 2" by (simp add: responsive_peer_def)
  have u: "[0..<Suc 2] = [0, 1, 2::nat]" by code_simp
  have w: "written state0 = []" by (simp add: state0_def)
  have i: "itoa 0 = ''0''" "itoa (Suc 0) = ''1''" "itoa 2 = ''2''"
    by (simp_all add: itoa.simps digit_def)
  note 1 = conjunct1 [OF continuation_blocks [of state0 flags0 responsive_peer client0],
      unfolded a option.case, unfolded t u w]
  show ?thesis using 1 by (simp add: i getLongString_def)
qed


lemma sendContinuationFrames_frame:
  "sentHeaders (snd (sendContinuationFrames fl ev i c e s)) = sentHeaders s \<and>
   wg (snd (sendContinuationFrames fl ev i c e s)) = wg s \<and>
   streamCounter (snd (sendContinuationFrames fl ev i c e s)) = streamCounter s \<and>
   recvFrames (snd (sendContinuationFrames fl ev i c e s)) = recvFrames s \<and>
   reads (snd (sendContinuationFrames fl ev i c e s)) = reads s \<and>
   reader_stdout (snd (sendContinuationFrames fl ev i c e s)) = reader_stdout s \<and>
   reader_returned (snd (sendContinuationFrames fl ev i c e s)) = reader_returned s"
  by (simp add: sendContinuationFrames_def Let_def split: option.split)

lemma flood_frame:
  "sentHeaders (flood fl ev i t c s) = sentHeaders s \<and>
   wg (flood fl ev i t c s) = wg s \<and>
   streamCounter (flood fl ev i t c s) = streamCounter s \<and>
   recvFrames (flood fl ev i t c s) = recvFrames s \<and>
   reads (flood fl ev i t c s) = reads s \<and>
   reader_stdout (flood fl ev i t c s) = reader_stdout s \<and>
   reader_returned (flood fl ev i t c s) = reader_returned s"
proof (induction t arbitrary: c s)
  case 0
  show ?case by (simp add: sendContinuationFrames_frame)
next
  case (Suc t)
  obtain err s' where r: "sendContinuationFrames fl ev i c False s = (err, s')"
    by (cases "sendContinuationFrames fl ev i c False s")
  from sendContinuationFrames_frame [of fl ev i c False s] r
  have f: "sentHeaders s' = sentHeaders s \<and> wg s' = wg s \<and>
      streamCounter s' = streamCounter s \<and> recvFrames s' = recvFrames s \<and>
      reads s' = reads s \<and> reader_stdout s' = reader_stdout s \<and>
      reader_returned s' = reader_returned s"
    by simp
  show ?case using r f Suc.IH [of "c + 1" s'] by simp
qed

lemma sendHeader_frame:
  "wg (snd (sendHeader ev hc s)) = wg s \<and>
   streamCounter (snd (sendHeader ev hc s)) = streamCounter s + 2 \<and>
   sentContinuation (snd (sendHeader ev hc s)) = sentContinuation s \<and>
   recvFrames (snd (sendHeader ev hc s)) = recvFrames s \<and>
   reads (snd (sendHeader ev hc s)) = reads s \<and>
   reader_stdout (snd (sendHeader ev hc s)) = reader_stdout s \<and>
   reader_returned (snd (sendHeader ev hc s)) = reader_returned s \<and>
   sentHeaders (snd (sendHeader ev hc s)) =
     (if WriteHeaders ev = None then sentHeaders s + 1 else sentHeaders s)"
  by (simp add: sendHeader_def Let_def split: option.split)

lemma stdout_sendHeader:
  "stdout (snd (sendHeader ev hc s)) =
     stdout s @
     [''Header size:  '' @ itoa (hpack_Len ev (header_block hc)) @ nl,
      case WriteHeaders ev of
        Some err \<Rightarrow> ''['' @ itoa (unat (streamCounter s + 2)) @ ''] Failed to send HEADERS: ''
                      @ Error err
      | None \<Rightarrow> ''['' @ itoa (unat (streamCounter s + 2)) @ ''] Sent HEADERS on stream ''
                   @ itoa (unat (streamCounter s + 2)) @ '', total size = ''
                   @ itoa (hpack_Len ev (header_block hc)) @ nl]"
  by (simp add: sendHeader_def Let_def split: option.split)

lemma flood_stdout_prefix: "\<exists>out. stdout (flood fl ev i t c s) = stdout s @ out"
proof (induction t arbitrary: c s)
  case 0
  show ?case by (simp add: stdout_sendContinuationFrames)
next
  case (Suc t)
  obtain s' where r: "sendContinuationFrames fl ev i c False s = (WriteContinuation ev c, s')"
    and o: "stdout s' = stdout s @ cont_log fl ev i c"
    by (rule sendContinuationFrames_cases)
  from Suc.IH [of "c + 1" s'] obtain out where
    "stdout (flood fl ev i t (c + 1) s') = stdout s' @ out" by blast
  then show ?case using r o by simp
qed

lemma sendRequests_frame:
  "wg (sendRequests fl ev hc s) = wg s \<and>
   doneChan (sendRequests fl ev hc s) = doneChan s + 1 \<and>
   streamCounter (sendRequests fl ev hc s) = streamCounter s + 2 \<and>
   recvFrames (sendRequests fl ev hc s) = recvFrames s \<and>
   reads (sendRequests fl ev hc s) = reads s \<and>
   reader_stdout (sendRequests fl ev hc s) = reader_stdout s \<and>
   reader_returned (sendRequests fl ev hc s) = reader_returned s \<and>
   sentHeaders (sendRequests fl ev hc s) =
     (if WriteHeaders ev = None then sentHeaders s + 1 else sentHeaders s)"
  by (simp add: sendRequests_flood flood_frame sendHeader_frame)

lemma not_vulnerable_not_in_cont_log: "not_vulnerable \<notin> set (cont_log fl ev i k)"
  by (simp add: cont_log_def not_vulnerable_def split: option.split)

subsection \<open>C3: a broken pipe ends the driver's frames\<close>

text \<open>
  Claim C3. If send number \<open>j\<close> of the flood loop (made before the timer fires, no
  earlier send having met a broken pipe) fails with an error that is EPIPE, then
  that frame is the last one the driver writes, so nothing follows it on the stream;
  no frame of the run has END_HEADERS true; and the last thing the driver prints is
  the line that the server is not likely vulnerable.
\<close>

theorem broken_pipe_stops_driver:
  assumes "j < timer_C ev" and "broken ev j" and "\<forall>k<j. \<not> broken ev k"
  shows "written (sendRequests fl ev hc s) =
           written s @ headers ev hc (streamCounter s + 2) #
             map (cont ev (streamCounter s + 2) False) [0..<j] @
             [cont ev (streamCounter s + 2) False j]
         \<and> is_EPIPE (snd (last (written (sendRequests fl ev hc s))))
         \<and> (\<forall>f \<in> set (drop (length (written s)) (written (sendRequests fl ev hc s))).
               \<not> end_headers f)
         \<and> last (stdout (sendRequests fl ev hc s)) = not_vulnerable"
proof -
  have b: "broken ev (0 + j)" "\<And>k. k < j \<Longrightarrow> \<not> broken ev (0 + k)"
    using assms by simp_all
  note f = flood_broken [OF assms(1) b, of fl "streamCounter s + 2" "snd (sendHeader ev hc s)"]
  have w: "written (sendRequests fl ev hc s) =
           written s @ headers ev hc (streamCounter s + 2) #
             map (cont ev (streamCounter s + 2) False) [0..<j] @
             [cont ev (streamCounter s + 2) False j]"
    using f by (simp add: sendRequests_flood written_sendHeader)
  have o: "last (stdout (sendRequests fl ev hc s)) = not_vulnerable"
    using f by (simp add: sendRequests_flood del: upt_Suc)
  have e: "is_EPIPE (snd (cont ev (streamCounter s + 2) False j))"
    using assms(2) by (simp add: broken_def cont_def)
  show ?thesis using o e by (simp add: w)
qed


theorem broken_pipe_stops_driver_witness:
  "3 < timer_C patched_peer \<and> broken patched_peer 3
   \<and> length (written (sendRequests flags0 patched_peer client0 state0)) = 5
   \<and> last (written (sendRequests flags0 patched_peer client0 state0)) =
       (ContinuationFrame 3 False (cont_block 3), Some broken_pipe)
   \<and> last (stdout (sendRequests flags0 patched_peer client0 state0)) = not_vulnerable"
proof -
  have a: "3 < timer_C patched_peer" by (simp add: patched_peer_def)
  have b: "broken patched_peer 3"
    by (simp add: broken_def patched_peer_def is_EPIPE_broken_pipe)
  have c: "\<forall>k<3. \<not> broken patched_peer k"
    by (simp add: broken_def patched_peer_def)
  have w: "WriteContinuation patched_peer 3 = Some broken_pipe"
    by (simp add: patched_peer_def)
  show ?thesis
    using broken_pipe_stops_driver [OF a b c, of flags0 client0 state0] a b
    by (simp add: state0_def cont_def w)
qed

lemma wantSettings_SettingsFrame:
  "first_ReadFrame ev = Inr (SettingsFrame a ps) \<Longrightarrow> wantSettings ev = Inr (SettingsFrame a ps)"
  by (simp add: wantSettings_def)

lemma wantSettings_Inr:
  "wantSettings ev = Inr f \<Longrightarrow> \<exists>a ps. first_ReadFrame ev = Inr (SettingsFrame a ps)"
  by (auto simp: wantSettings_def split: sum.splits Frame.splits)

lemma reader_frame:
  "wg (reader ev rs s) = wg s \<and> doneChan (reader ev rs s) = doneChan s \<and>
   written (reader ev rs s) = written s \<and> stdout (reader ev rs s) = stdout s \<and>
   streamCounter (reader ev rs s) = streamCounter s \<and>
   sentHeaders (reader ev rs s) = sentHeaders s \<and>
   sentContinuation (reader ev rs s) = sentContinuation s"
  by (induction ev rs s rule: reader.induct) simp_all

lemma testContinuationFlood_Returned:
  assumes "setup_succeeds fl ev"
  shows "\<exists>hc. NewHttp2Client ev (urlStr fl) = Inr hc \<and>
     testContinuationFlood fl ev s =
       Returned ((sendRequests fl ev hc
          (reader ev (ReadFrame ev)
             (s\<lparr>streamCounter := 1,
                written := written s @
                  [(SettingsFrame False [], None), (SettingsFrame True [], None)]\<rparr>)))
          \<lparr>wg := wg s - 1\<rparr>)"
proof -
  from assms obtain u where u: "url_Parse ev (urlStr fl) = Inr u"
    by (auto simp: setup_succeeds_def split: sum.splits)
  from assms obtain a ps where f: "first_ReadFrame ev = Inr (SettingsFrame a ps)"
    by (auto simp: setup_succeeds_def split: sum.splits Frame.splits)
  from assms have r: "tls_Dial ev = None" "cc_Write ev = (length ClientPreface, None)"
    "WriteSettings ev = None" "WriteSettingsAck ev = None"
    by (simp_all add: setup_succeeds_def)
  have n: "NewHttp2Client ev (urlStr fl) =
      Inr \<lparr>url = u, path = (if Path u = [] then ''/'' else Path u)\<rparr>"
    by (simp add: NewHttp2Client_def u r Let_def)
  have p: "writePreface ev = None" by (simp add: writePreface_def r)
  show ?thesis
    by (simp add: testContinuationFlood_def n p writeInitialSettings_def r
        wantSettings_SettingsFrame [OF f] writeSettingsAck_def Let_def
        sendRequests_frame reader_frame)
qed

lemma testContinuationFlood_Returned_signal:
  assumes "setup_succeeds fl ev"
  shows "\<exists>s'. testContinuationFlood fl ev s = Returned s' \<and>
           doneChan s' = doneChan s + 1 \<and> wg s' = wg s - 1"
  using testContinuationFlood_Returned [OF assms, of s]
  by (auto simp: sendRequests_frame reader_frame)

subsection \<open>C6: a failed HEADERS write is logged and the flood goes on\<close>

text \<open>
  Claim C6. If the write of the HEADERS frame fails with \<open>err\<close>, the driver prints
  the stream identifier and the error, does not count the frame as sent, and goes
  on: the next frame it writes is the CONTINUATION frame number 0 on the same
  stream identifier (with END_HEADERS true only when the timer has fired already),
  it sends its completion signal, and after a set-up that passed the driver
  returns instead of ending the process.
\<close>

theorem headers_failure_not_fatal:
  assumes "WriteHeaders ev = Some err"
  shows "''['' @ itoa (unat (streamCounter s + 2)) @ ''] Failed to send HEADERS: '' @ Error err
           \<in> set (stdout (sendRequests fl ev hc s))
         \<and> sentHeaders (sendRequests fl ev hc s) = sentHeaders s
         \<and> written (sendRequests fl ev hc s) ! length (written s) =
             (HeadersFrame (streamCounter s + 2) (header_block hc) False False, Some err)
         \<and> written (sendRequests fl ev hc s) ! Suc (length (written s)) =
             (ContinuationFrame (streamCounter s + 2) (timer_C ev = 0) (cont_block 0),
              WriteContinuation ev 0)
         \<and> cont_blocks (drop (length (written s)) (written (sendRequests fl ev hc s))) \<noteq> []
         \<and> doneChan (sendRequests fl ev hc s) = doneChan s + 1
         \<and> (setup_succeeds fl ev \<longrightarrow> (\<exists>s'. testContinuationFlood fl ev s = Returned s'))"
proof -
  obtain out where o: "stdout (sendRequests fl ev hc s) =
      stdout (snd (sendHeader ev hc s)) @ out"
    using flood_stdout_prefix [of fl ev "streamCounter s + 2" "timer_C ev" 0
        "snd (sendHeader ev hc s)"]
    by (auto simp: sendRequests_flood)
  have 1: "''['' @ itoa (unat (streamCounter s + 2)) @ ''] Failed to send HEADERS: '' @ Error err
           \<in> set (stdout (sendRequests fl ev hc s))"
    by (simp add: o stdout_sendHeader assms)
  have 2: "sentHeaders (sendRequests fl ev hc s) = sentHeaders s"
    by (simp add: sendRequests_frame assms)
  have 3: "written (sendRequests fl ev hc s) ! length (written s) =
             (HeadersFrame (streamCounter s + 2) (header_block hc) False False, Some err)"
    by (simp add: written_sendRequests headers_def assms)
  have 4: "written (sendRequests fl ev hc s) ! Suc (length (written s)) =
             (ContinuationFrame (streamCounter s + 2) (timer_C ev = 0) (cont_block 0),
              WriteContinuation ev 0)"
  proof (cases "List.find (broken ev) [0..<timer_C ev]")
    case None
    show ?thesis
    proof (cases "timer_C ev")
      case 0
      then show ?thesis using None by (simp add: written_sendRequests nth_append cont_def)
    next
      case (Suc t)
      then show ?thesis using None
        by (simp add: written_sendRequests nth_append cont_def upt_rec [of 0] del: upt_Suc)
    qed
  next
    case (Some j)
    then have "0 < timer_C ev" by (auto simp: find_upt_Some)
    then show ?thesis using Some
      by (simp add: written_sendRequests nth_append cont_def upt_rec [of 0] del: upt_Suc)
  qed
  have 5: "cont_blocks (drop (length (written s)) (written (sendRequests fl ev hc s))) \<noteq> []"
    by (simp add: cont_blocks_sendRequests split: option.splits del: upt_Suc)
  have 6: "doneChan (sendRequests fl ev hc s) = doneChan s + 1"
    by (simp add: sendRequests_frame)
  have 7: "setup_succeeds fl ev \<longrightarrow> (\<exists>s'. testContinuationFlood fl ev s = Returned s')"
    using testContinuationFlood_Returned_signal [of fl ev s] by blast
  show ?thesis using 1 2 3 4 5 6 7 by blast
qed


lemma setup_succeeds_responsive_peer: "setup_succeeds flags0 responsive_peer"
  by (simp add: setup_succeeds_def responsive_peer_def length_ClientPreface)

lemma itoa_3: "itoa 3 = ''3''"
  by (simp add: itoa.simps digit_def)

theorem headers_failure_not_fatal_witness:
  "WriteHeaders closed_peer = Some broken_pipe
   \<and> setup_succeeds flags0 closed_peer
   \<and> ''[3] Failed to send HEADERS: write tcp 127.0.0.1:8443: write: broken pipe''
        \<in> set (stdout (sendRequests flags0 closed_peer client0 state0))
   \<and> written (sendRequests flags0 closed_peer client0 state0) ! 1 =
        (ContinuationFrame 3 False (cont_block 0), Some broken_pipe)
   \<and> (\<exists>s'. testContinuationFlood flags0 closed_peer state0 = Returned s')"
proof -
  have a: "WriteHeaders closed_peer = Some broken_pipe" by (simp add: closed_peer_def)
  have b: "setup_succeeds flags0 closed_peer"
    using setup_succeeds_responsive_peer
    by (simp add: setup_succeeds_def closed_peer_def)
  have c: "timer_C closed_peer = 2" "WriteContinuation closed_peer 0 = Some broken_pipe"
    by (simp_all add: closed_peer_def responsive_peer_def)
  have d: "streamCounter state0 = 1" "written state0 = []" by (simp_all add: state0_def)
  have e: "Error broken_pipe = ''write tcp 127.0.0.1:8443: write: broken pipe''"
    by (simp add: broken_pipe_def)
  show ?thesis
    using headers_failure_not_fatal [OF a, of state0 flags0 client0] a b
    by (simp add: c d e itoa_3)
qed

subsection \<open>C9: the error of the final send is ignored\<close>

text \<open>
  Claim C9. If the timer fires with no broken pipe before, and the write of the
  final frame (END_HEADERS true) fails with \<open>err\<close>, a broken pipe included, then
  the failed frame is the last one written, the line about a server that is not
  likely vulnerable is not printed by this run, the completion signal is sent, and
  after a set-up that passed the driver returns with the WaitGroup counter
  decremented.
\<close>

theorem final_send_error_ignored:
  assumes "\<forall>j<timer_C ev. \<not> broken ev j" and "WriteContinuation ev (timer_C ev) = Some err"
  shows "last (written (sendRequests fl ev hc s)) =
           (ContinuationFrame (streamCounter s + 2) True (cont_block (timer_C ev)), Some err)
         \<and> not_vulnerable \<notin> set (drop (length (stdout s)) (stdout (sendRequests fl ev hc s)))
         \<and> doneChan (sendRequests fl ev hc s) = doneChan s + 1
         \<and> (setup_succeeds fl ev \<longrightarrow>
              (\<exists>s'. testContinuationFlood fl ev s = Returned s' \<and>
                    doneChan s' = doneChan s + 1 \<and> wg s' = wg s - 1))"
proof -
  have n: "\<And>j. j < timer_C ev \<Longrightarrow> \<not> broken ev (0 + j)" using assms(1) by simp
  note f = flood_timer [OF n, of "timer_C ev" fl "streamCounter s + 2" "snd (sendHeader ev hc s)"]
  have 1: "last (written (sendRequests fl ev hc s)) =
           (ContinuationFrame (streamCounter s + 2) True (cont_block (timer_C ev)), Some err)"
    using f assms(2) by (simp add: sendRequests_flood cont_def)
  have "\<exists>l1 l2. stdout (snd (sendHeader ev hc s)) = stdout s @ [l1, l2] \<and>
      hd l1 = CHR ''H'' \<and> hd l2 = CHR ''[''"
    by (simp add: stdout_sendHeader split: option.split)
  then obtain l1 l2 where h: "stdout (snd (sendHeader ev hc s)) = stdout s @ [l1, l2]"
    and l: "hd l1 = CHR ''H''" "hd l2 = CHR ''[''"
    by blast
  have nv: "hd not_vulnerable = CHR ''c''" by (simp add: not_vulnerable_def)
  have ne: "l1 \<noteq> not_vulnerable" "l2 \<noteq> not_vulnerable" using l nv by auto
  have "stdout (sendRequests fl ev hc s) =
      stdout s @ [l1, l2] @
        concat (map (cont_log fl ev (streamCounter s + 2)) [0..<Suc (timer_C ev)])"
    using f h by (simp add: sendRequests_flood del: upt_Suc)
  then have 2: "not_vulnerable \<notin> set (drop (length (stdout s)) (stdout (sendRequests fl ev hc s)))"
    using ne by (simp add: not_vulnerable_not_in_cont_log del: upt_Suc)
  have 4: "doneChan (sendRequests fl ev hc s) = doneChan s + 1"
    by (simp add: sendRequests_frame)
  have 5: "setup_succeeds fl ev \<longrightarrow>
              (\<exists>s'. testContinuationFlood fl ev s = Returned s' \<and>
                    doneChan s' = doneChan s + 1 \<and> wg s' = wg s - 1)"
    using testContinuationFlood_Returned_signal [of fl ev s] by blast
  show ?thesis using 1 2 4 5 by blast
qed


theorem final_send_error_ignored_witness:
  "timer_C (responsive_peer\<lparr>WriteContinuation := (\<lambda>k. if k = 2 then Some broken_pipe else None)\<rparr>) = 2
   \<and> \<not> broken (responsive_peer\<lparr>WriteContinuation := (\<lambda>k. if k = 2 then Some broken_pipe else None)\<rparr>) 0
   \<and> \<not> broken (responsive_peer\<lparr>WriteContinuation := (\<lambda>k. if k = 2 then Some broken_pipe else None)\<rparr>) 1
   \<and> last (written (sendRequests flags0
        (responsive_peer\<lparr>WriteContinuation := (\<lambda>k. if k = 2 then Some broken_pipe else None)\<rparr>)
        client0 state0)) = (ContinuationFrame 3 True (cont_block 2), Some broken_pipe)
   \<and> doneChan (sendRequests flags0
        (responsive_peer\<lparr>WriteContinuation := (\<lambda>k. if k = 2 then Some broken_pipe else None)\<rparr>)
        client0 state0) = 1
   \<and> (\<exists>s'. testContinuationFlood flags0
        (responsive_peer\<lparr>WriteContinuation := (\<lambda>k. if k = 2 then Some broken_pipe else None)\<rparr>)
        state0 = Returned s' \<and> doneChan s' = 1 \<and> wg s' = 0)"
proof -
  define ev where
    "ev = responsive_peer\<lparr>WriteContinuation := (\<lambda>k. if k = 2 then Some broken_pipe else None)\<rparr>"
  have t: "timer_C ev = 2" by (simp add: ev_def responsive_peer_def)
  have a: "\<forall>j<timer_C ev. \<not> broken ev j" by (simp add: t) (simp add: ev_def broken_def)
  have b: "WriteContinuation ev (timer_C ev) = Some broken_pipe" by (simp add: t) (simp add: ev_def)
  have c: "setup_succeeds flags0 ev"
    using setup_succeeds_responsive_peer by (simp add: setup_succeeds_def ev_def)
  have d: "streamCounter state0 = 1" "doneChan state0 = 0" "wg state0 = 1"
    by (simp_all add: state0_def)
  show ?thesis
    using final_send_error_ignored [OF a b, of flags0 client0 state0] a c
    unfolding ev_def [symmetric] by (simp add: t d)
qed

subsection \<open>C5: set-up errors end the process\<close>

text \<open>
  Claim C5. If the dial fails, or the write of the preface does not return 24 bytes
  and no error, or the write of the first SETTINGS frame fails, or the first frame
  read is not a SETTINGS frame (a read error included), or the write of the
  acknowledgement fails, then \<open>testContinuationFlood\<close> ends the process with a
  message (\<^verbatim>\<open>log.Fatal\<close>): it does not return, sends no completion signal, does not
  call \<^verbatim>\<open>wg.Done\<close>, and has written no HEADERS or CONTINUATION frame.
\<close>

theorem setup_errors_are_fatal:
  assumes "tls_Dial ev \<noteq> None \<or> cc_Write ev \<noteq> (24, None) \<or> WriteSettings ev \<noteq> None \<or>
           (\<forall>a ps. first_ReadFrame ev \<noteq> Inr (SettingsFrame a ps)) \<or>
           WriteSettingsAck ev \<noteq> None"
  shows "\<exists>msg s'. testContinuationFlood fl ev s = Exit msg s' \<and>
           doneChan s' = doneChan s \<and> wg s' = wg s \<and> sentHeaders s' = sentHeaders s \<and>
           sentContinuation s' = sentContinuation s \<and>
           cont_blocks (written s') = cont_blocks (written s)"
proof (cases "setup_succeeds fl ev")
  case True
  then have "tls_Dial ev = None" "cc_Write ev = (24, None)" "WriteSettings ev = None"
    "WriteSettingsAck ev = None" "\<exists>a ps. first_ReadFrame ev = Inr (SettingsFrame a ps)"
    by (auto simp: setup_succeeds_def length_ClientPreface split: sum.splits Frame.splits)
  with assms show ?thesis by blast
next
  case False
  show ?thesis
  proof (cases "NewHttp2Client ev (urlStr fl)")
    case (Inl msg)
    then show ?thesis by (simp add: testContinuationFlood_def)
  next
    case (Inr hc)
    then have u: "(case url_Parse ev (urlStr fl) of Inl err \<Rightarrow> False | Inr u \<Rightarrow> True)"
      and d: "tls_Dial ev = None"
      by (auto simp: NewHttp2Client_def Let_def split: sum.splits option.splits)
    show ?thesis
    proof (cases "writePreface ev")
      case (Some err)
      then show ?thesis using Inr by (simp add: testContinuationFlood_def)
    next
      case None
      then have p: "cc_Write ev = (length ClientPreface, None)"
        by (auto simp: writePreface_def split: prod.splits option.splits if_splits)
      show ?thesis
      proof (cases "WriteSettings ev")
        case (Some err)
        then show ?thesis using Inr None
          by (simp add: testContinuationFlood_def writeInitialSettings_def cont_blocks_append)
      next
        case ws: None
        show ?thesis
        proof (cases "wantSettings ev")
          case (Inl err)
          then show ?thesis using Inr None ws
            by (simp add: testContinuationFlood_def writeInitialSettings_def cont_blocks_append)
        next
          case sf: (Inr f)
          then obtain a ps where f: "first_ReadFrame ev = Inr (SettingsFrame a ps)"
            using wantSettings_Inr by blast
          show ?thesis
          proof (cases "WriteSettingsAck ev")
            case None
            then have "setup_succeeds fl ev"
              using u d p ws f by (simp add: setup_succeeds_def)
            with False show ?thesis by simp
          next
            case (Some err)
            then show ?thesis using Inr \<open>writePreface ev = None\<close> ws sf
              by (simp add: testContinuationFlood_def writeInitialSettings_def
                  writeSettingsAck_def Let_def cont_blocks_append)
          qed
        qed
      qed
    qed
  qed
qed

lemma itoa_10: "itoa 10 = ''10''"
  by (simp add: itoa.simps digit_def)

lemma itoa_24: "itoa 24 = ''24''"
  by (simp add: itoa.simps digit_def)

theorem setup_errors_are_fatal_witness:
  "testContinuationFlood flags0
      (responsive_peer\<lparr>tls_Dial := Some (errorString ''connection refused'')\<rparr>) state0
     = Exit ''Failed to dial: connection refused'' state0
   \<and> testContinuationFlood flags0 (responsive_peer\<lparr>cc_Write := (10, None)\<rparr>) state0
     = Exit ''Failed to send client preface: writing client preface, wrote 10 bytes; want 24''
         state0
   \<and> testContinuationFlood flags0 (responsive_peer\<lparr>WriteSettings := Some broken_pipe\<rparr>) state0
     = Exit ''Failed to write settings: write tcp 127.0.0.1:8443: write: broken pipe''
         (state0\<lparr>written := [(SettingsFrame False [], Some broken_pipe)]\<rparr>)
   \<and> testContinuationFlood flags0
        (responsive_peer\<lparr>first_ReadFrame := Inr (GoAwayFrame 0 1)\<rparr>) state0
     = Exit ''got a *http2.GoAwayFrame; want *SettingsFrame''
         (state0\<lparr>written := [(SettingsFrame False [], None)]\<rparr>)
   \<and> testContinuationFlood flags0 (responsive_peer\<lparr>first_ReadFrame := Inl EOF\<rparr>) state0
     = Exit ''error while expecting a SETTINGS frame: EOF''
         (state0\<lparr>written := [(SettingsFrame False [], None)]\<rparr>)
   \<and> testContinuationFlood flags0 (responsive_peer\<lparr>WriteSettingsAck := Some broken_pipe\<rparr>) state0
     = Exit ''error writing ACK of server's SETTINGS: write tcp 127.0.0.1:8443: write: broken pipe''
         (state0\<lparr>written := [(SettingsFrame False [], None),
            (SettingsFrame True [], Some broken_pipe)]\<rparr>)"
proof -
  have e: "Error broken_pipe = ''write tcp 127.0.0.1:8443: write: broken pipe''"
    by (simp add: broken_pipe_def)
  have s: "state0\<lparr>streamCounter := 1\<rparr> = state0" by (simp add: state0_def)
  have n: "NewHttp2Client responsive_peer (urlStr flags0) = Inr client0"
    by (simp add: NewHttp2Client_def responsive_peer_def client0_def)
  note defs = testContinuationFlood_def NewHttp2Client_def writePreface_def
    writeInitialSettings_def wantSettings_def writeSettingsAck_def responsive_peer_def
    length_ClientPreface itoa_10 itoa_24 e s
  have h1: "tls_Dial (responsive_peer\<lparr>tls_Dial := Some (errorString ''connection refused'')\<rparr>) \<noteq> None \<or> cc_Write (responsive_peer\<lparr>tls_Dial := Some (errorString ''connection refused'')\<rparr>) \<noteq> (24, None) \<or>
      WriteSettings (responsive_peer\<lparr>tls_Dial := Some (errorString ''connection refused'')\<rparr>) \<noteq> None \<or>
      (\<forall>a ps. first_ReadFrame (responsive_peer\<lparr>tls_Dial := Some (errorString ''connection refused'')\<rparr>) \<noteq> Inr (SettingsFrame a ps)) \<or>
      WriteSettingsAck (responsive_peer\<lparr>tls_Dial := Some (errorString ''connection refused'')\<rparr>) \<noteq> None"
    by (simp add: responsive_peer_def)
  have 1: "testContinuationFlood flags0
      (responsive_peer\<lparr>tls_Dial := Some (errorString ''connection refused'')\<rparr>) state0
     = Exit ''Failed to dial: connection refused'' state0"
    using setup_errors_are_fatal [OF h1, of flags0 state0]
    by (simp add: defs)
  have h2: "tls_Dial (responsive_peer\<lparr>cc_Write := (10, None)\<rparr>) \<noteq> None \<or> cc_Write (responsive_peer\<lparr>cc_Write := (10, None)\<rparr>) \<noteq> (24, None) \<or>
      WriteSettings (responsive_peer\<lparr>cc_Write := (10, None)\<rparr>) \<noteq> None \<or>
      (\<forall>a ps. first_ReadFrame (responsive_peer\<lparr>cc_Write := (10, None)\<rparr>) \<noteq> Inr (SettingsFrame a ps)) \<or>
      WriteSettingsAck (responsive_peer\<lparr>cc_Write := (10, None)\<rparr>) \<noteq> None"
    by (simp add: responsive_peer_def)
  have 2: "testContinuationFlood flags0 (responsive_peer\<lparr>cc_Write := (10, None)\<rparr>) state0
     = Exit ''Failed to send client preface: writing client preface, wrote 10 bytes; want 24''
         state0"
    using setup_errors_are_fatal [OF h2, of flags0 state0]
    by (simp add: defs)
  have h3: "tls_Dial (responsive_peer\<lparr>WriteSettings := Some broken_pipe\<rparr>) \<noteq> None \<or> cc_Write (responsive_peer\<lparr>WriteSettings := Some broken_pipe\<rparr>) \<noteq> (24, None) \<or>
      WriteSettings (responsive_peer\<lparr>WriteSettings := Some broken_pipe\<rparr>) \<noteq> None \<or>
      (\<forall>a ps. first_ReadFrame (responsive_peer\<lparr>WriteSettings := Some broken_pipe\<rparr>) \<noteq> Inr (SettingsFrame a ps)) \<or>
      WriteSettingsAck (responsive_peer\<lparr>WriteSettings := Some broken_pipe\<rparr>) \<noteq> None"
    by (simp add: responsive_peer_def)
  have 3: "testContinuationFlood flags0 (responsive_peer\<lparr>WriteSettings := Some broken_pipe\<rparr>) state0
     = Exit ''Failed to write settings: write tcp 127.0.0.1:8443: write: broken pipe''
         (state0\<lparr>written := [(SettingsFrame False [], Some broken_pipe)]\<rparr>)"
    using setup_errors_are_fatal [OF h3, of flags0 state0]
    by (simp add: defs) (simp add: state0_def)
  have h4: "tls_Dial (responsive_peer\<lparr>first_ReadFrame := Inr (GoAwayFrame 0 1)\<rparr>) \<noteq> None \<or> cc_Write (responsive_peer\<lparr>first_ReadFrame := Inr (GoAwayFrame 0 1)\<rparr>) \<noteq> (24, None) \<or>
      WriteSettings (responsive_peer\<lparr>first_ReadFrame := Inr (GoAwayFrame 0 1)\<rparr>) \<noteq> None \<or>
      (\<forall>a ps. first_ReadFrame (responsive_peer\<lparr>first_ReadFrame := Inr (GoAwayFrame 0 1)\<rparr>) \<noteq> Inr (SettingsFrame a ps)) \<or>
      WriteSettingsAck (responsive_peer\<lparr>first_ReadFrame := Inr (GoAwayFrame 0 1)\<rparr>) \<noteq> None"
    by (simp add: responsive_peer_def)
  have 4: "testContinuationFlood flags0
        (responsive_peer\<lparr>first_ReadFrame := Inr (GoAwayFrame 0 1)\<rparr>) state0
     = Exit ''got a *http2.GoAwayFrame; want *SettingsFrame''
         (state0\<lparr>written := [(SettingsFrame False [], None)]\<rparr>)"
    using setup_errors_are_fatal [OF h4, of flags0 state0]
    by (simp add: defs) (simp add: state0_def)
  have h5: "tls_Dial (responsive_peer\<lparr>first_ReadFrame := Inl EOF\<rparr>) \<noteq> None \<or> cc_Write (responsive_peer\<lparr>first_ReadFrame := Inl EOF\<rparr>) \<noteq> (24, None) \<or>
      WriteSettings (responsive_peer\<lparr>first_ReadFrame := Inl EOF\<rparr>) \<noteq> None \<or>
      (\<forall>a ps. first_ReadFrame (responsive_peer\<lparr>first_ReadFrame := Inl EOF\<rparr>) \<noteq> Inr (SettingsFrame a ps)) \<or>
      WriteSettingsAck (responsive_peer\<lparr>first_ReadFrame := Inl EOF\<rparr>) \<noteq> None"
    by (simp add: responsive_peer_def)
  have 5: "testContinuationFlood flags0 (responsive_peer\<lparr>first_ReadFrame := Inl EOF\<rparr>) state0
     = Exit ''error while expecting a SETTINGS frame: EOF''
         (state0\<lparr>written := [(SettingsFrame False [], None)]\<rparr>)"
    using setup_errors_are_fatal [OF h5, of flags0 state0]
    by (simp add: defs) (simp add: state0_def)
  have h6: "tls_Dial (responsive_peer\<lparr>WriteSettingsAck := Some broken_pipe\<rparr>) \<noteq> None \<or> cc_Write (responsive_peer\<lparr>WriteSettingsAck := Some broken_pipe\<rparr>) \<noteq> (24, None) \<or>
      WriteSettings (responsive_peer\<lparr>WriteSettingsAck := Some broken_pipe\<rparr>) \<noteq> None \<or>
      (\<forall>a ps. first_ReadFrame (responsive_peer\<lparr>WriteSettingsAck := Some broken_pipe\<rparr>) \<noteq> Inr (SettingsFrame a ps)) \<or>
      WriteSettingsAck (responsive_peer\<lparr>WriteSettingsAck := Some broken_pipe\<rparr>) \<noteq> None"
    by (simp add: responsive_peer_def)
  have 6: "testContinuationFlood flags0 (responsive_peer\<lparr>WriteSettingsAck := Some broken_pipe\<rparr>) state0
     = Exit ''error writing ACK of server's SETTINGS: write tcp 127.0.0.1:8443: write: broken pipe''
         (state0\<lparr>written := [(SettingsFrame False [], None),
            (SettingsFrame True [], Some broken_pipe)]\<rparr>)"
    using setup_errors_are_fatal [OF h6, of flags0 state0]
    by (simp add: defs Let_def) (simp add: state0_def)
  show ?thesis using 1 2 3 4 5 6 by blast
qed

subsection \<open>C10: the content of the peer's SETTINGS frame is not used\<close>

lemma sendContinuationFrames_first_ReadFrame:
  "sendContinuationFrames fl (ev\<lparr>first_ReadFrame := x\<rparr>) i c e s =
   sendContinuationFrames fl ev i c e s"
  by (simp add: sendContinuationFrames_def)

lemma flood_first_ReadFrame:
  "flood fl (ev\<lparr>first_ReadFrame := x\<rparr>) i t c s = flood fl ev i t c s"
  by (induction t arbitrary: c s)
    (simp_all add: sendContinuationFrames_first_ReadFrame split: prod.split)

lemma sendRequests_first_ReadFrame:
  "sendRequests fl (ev\<lparr>first_ReadFrame := x\<rparr>) hc s = sendRequests fl ev hc s"
  by (simp add: sendRequests_def sendHeader_def flood_first_ReadFrame)

lemma received_line_first_ReadFrame:
  "received_line (ev\<lparr>first_ReadFrame := x\<rparr>) f = received_line ev f"
  by (simp add: received_line_def split: Frame.split)

lemma reader_first_ReadFrame:
  "reader (ev\<lparr>first_ReadFrame := x\<rparr>) rs s = reader ev rs s"
proof (induction rs arbitrary: s)
  case Nil
  show ?case by simp
next
  case (Cons r rs)
  then show ?case by (cases r) (simp_all add: received_line_first_ReadFrame)
qed

lemma setup_first_ReadFrame:
  "NewHttp2Client (ev\<lparr>first_ReadFrame := x\<rparr>) u = NewHttp2Client ev u"
  "writePreface (ev\<lparr>first_ReadFrame := x\<rparr>) = writePreface ev"
  "writeInitialSettings (ev\<lparr>first_ReadFrame := x\<rparr>) s = writeInitialSettings ev s"
  "writeSettingsAck (ev\<lparr>first_ReadFrame := x\<rparr>) s = writeSettingsAck ev s"
  "ReadFrame (ev\<lparr>first_ReadFrame := x\<rparr>) = ReadFrame ev"
  by (simp_all add: NewHttp2Client_def writePreface_def writeInitialSettings_def
      writeSettingsAck_def Let_def split: sum.split)

text \<open>
  Claim C10. Two runs of a driver whose environments differ only in the content of
  the SETTINGS frame the peer sends first (its ACK flag and its settings) have the
  same outcome: the same frames written with the same results, the same output,
  the same counters. \<open>wantSettings\<close> accepts the frame for its type alone, and its
  result is not used.
\<close>

theorem settings_content_ignored:
  "testContinuationFlood fl (ev\<lparr>first_ReadFrame := Inr (SettingsFrame a ps)\<rparr>) s =
   testContinuationFlood fl (ev\<lparr>first_ReadFrame := Inr (SettingsFrame a' ps')\<rparr>) s
   \<and> wantSettings (ev\<lparr>first_ReadFrame := Inr (SettingsFrame a ps)\<rparr>) =
       Inr (SettingsFrame a ps)"
proof -
  have w: "wantSettings (ev\<lparr>first_ReadFrame := Inr (SettingsFrame b qs)\<rparr>) =
      Inr (SettingsFrame b qs)" for b qs
    by (simp add: wantSettings_def)
  have "testContinuationFlood fl (ev\<lparr>first_ReadFrame := Inr (SettingsFrame b qs)\<rparr>) s =
      (case NewHttp2Client ev (urlStr fl) of
         Inl msg \<Rightarrow> Exit msg (s\<lparr>streamCounter := 1\<rparr>)
       | Inr hc \<Rightarrow>
           (case writePreface ev of
              Some err \<Rightarrow>
                Exit (''Failed to send client preface: '' @ Error err) (s\<lparr>streamCounter := 1\<rparr>)
            | None \<Rightarrow>
                (case writeInitialSettings ev (s\<lparr>streamCounter := 1\<rparr>) of
                   (Some err, s1) \<Rightarrow> Exit (''Failed to write settings: '' @ Error err) s1
                 | (None, s1) \<Rightarrow>
                     (case writeSettingsAck ev s1 of
                        (Some err, s2) \<Rightarrow> Exit (Error err) s2
                      | (None, s2) \<Rightarrow>
                          Returned ((sendRequests fl ev hc (reader ev (ReadFrame ev) s2))
                            \<lparr>wg := wg (sendRequests fl ev hc (reader ev (ReadFrame ev) s2)) - 1\<rparr>)))))"
    for b qs
    by (simp add: testContinuationFlood_def w setup_first_ReadFrame
        sendRequests_first_ReadFrame reader_first_ReadFrame Let_def
        split: sum.split option.split prod.split)
  then show ?thesis by (simp add: w)
qed

theorem settings_content_ignored_witness:
  "testContinuationFlood flags0
      (responsive_peer\<lparr>first_ReadFrame := Inr (SettingsFrame False [(3, 250)])\<rparr>) state0 =
   testContinuationFlood flags0
      (responsive_peer\<lparr>first_ReadFrame := Inr (SettingsFrame True [(4, 65535), (5, 16384)])\<rparr>)
      state0"
  using settings_content_ignored [where fl = flags0 and ev = responsive_peer and a = False
      and ps = "[(3, 250)]" and s = state0 and a' = True and ps' = "[(4, 65535), (5, 16384)]"]
  by simp

subsection \<open>C7: the background reader\<close>

lemma read_line_simps:
  "read_line ev (Inl err) = ''Failed to read frame: '' @ Error err"
  "read_line ev (Inr frame) = received_line ev frame"
  by (simp_all add: read_line_def)

lemma reader_no_EOF:
  "Inl EOF \<notin> set rs \<Longrightarrow>
   reads (reader ev rs s) = reads s + length rs \<and>
   reader_returned (reader ev rs s) = reader_returned s \<and>
   recvFrames (reader ev rs s) =
     recvFrames s + of_nat (length (filter (\<lambda>r. \<not> is_frame_error r) rs)) \<and>
   reader_stdout (reader ev rs s) = reader_stdout s @ map (read_line ev) rs"
proof (induction rs arbitrary: s)
  case Nil
  show ?case by simp
next
  case (Cons r rs)
  show ?case
  proof (cases r)
    case (Inl err)
    with Cons.prems have "err \<noteq> EOF" "Inl EOF \<notin> set rs" by auto
    then show ?thesis using Inl Cons.IH by (simp add: read_line_simps)
  next
    case (Inr frame)
    from Cons.prems have "Inl EOF \<notin> set rs" by auto
    then show ?thesis using Inr Cons.IH by (simp add: read_line_simps)
  qed
qed

lemma reader_EOF:
  "Inl EOF \<notin> set rs \<Longrightarrow>
   reader ev (rs @ Inl EOF # rest) s =
     (reader ev rs s)\<lparr>reads := reads (reader ev rs s) + 1, reader_returned := True\<rparr>"
proof (induction rs arbitrary: s)
  case Nil
  show ?case by simp
next
  case (Cons r rs)
  show ?case
  proof (cases r)
    case (Inl err)
    with Cons.prems have "err \<noteq> EOF" "Inl EOF \<notin> set rs" by auto
    then show ?thesis using Inl Cons.IH by simp
  next
    case (Inr frame)
    from Cons.prems have "Inl EOF \<notin> set rs" by auto
    then show ?thesis using Inr Cons.IH by simp
  qed
qed

text \<open>
  Claim C7. Let the reader's calls of \<^verbatim>\<open>ReadFrame\<close> return the results \<open>rs\<close>, none
  of them the error EOF. Then the reader has made all these calls and has not
  returned: an error other than EOF does not end the loop. Each frame read has
  added 1 to \<open>recvFrames\<close>, and each result has printed its line (the error, or the
  frame by its type). If the next result is EOF the reader returns: one more call
  is counted, nothing is printed, and no later result is read.
\<close>

theorem reader_behaviour:
  assumes "Inl EOF \<notin> set rs"
  shows "reads (reader ev rs s) = reads s + length rs
         \<and> reader_returned (reader ev rs s) = reader_returned s
         \<and> recvFrames (reader ev rs s) =
             recvFrames s + of_nat (length (filter (\<lambda>r. \<not> is_frame_error r) rs))
         \<and> reader_stdout (reader ev rs s) = reader_stdout s @ map (read_line ev) rs
         \<and> reader ev (rs @ Inl EOF # rest) s =
             (reader ev rs s)\<lparr>reads := reads s + length rs + 1, reader_returned := True\<rparr>"
  using reader_no_EOF [OF assms, of ev s] reader_EOF [OF assms, of ev rest s] by simp

theorem reader_behaviour_witness:
  "Inl EOF \<notin> set [Inr (SettingsFrame True []), Inl (errorString ''i/o timeout''),
        Inr (GoAwayFrame 0 9)]
   \<and> reads (reader responsive_peer
        ([Inr (SettingsFrame True []), Inl (errorString ''i/o timeout''), Inr (GoAwayFrame 0 9)]
           @ Inl EOF # [Inr (OtherFrame ''*http2.PingFrame'')]) state0) = 4
   \<and> reader_returned (reader responsive_peer
        ([Inr (SettingsFrame True []), Inl (errorString ''i/o timeout''), Inr (GoAwayFrame 0 9)]
           @ Inl EOF # [Inr (OtherFrame ''*http2.PingFrame'')]) state0)
   \<and> recvFrames (reader responsive_peer
        ([Inr (SettingsFrame True []), Inl (errorString ''i/o timeout''), Inr (GoAwayFrame 0 9)]
           @ Inl EOF # [Inr (OtherFrame ''*http2.PingFrame'')]) state0) = 2
   \<and> reader_stdout (reader responsive_peer
        ([Inr (SettingsFrame True []), Inl (errorString ''i/o timeout''), Inr (GoAwayFrame 0 9)]
           @ Inl EOF # [Inr (OtherFrame ''*http2.PingFrame'')]) state0) =
       [''received frame: *http2.SettingsFrame'' @ nl,
        ''Failed to read frame: i/o timeout'',
        ''received GOAWAY frame: *http2.GoAwayFrame'' @ nl]"
proof -
  have a: "Inl EOF \<notin> set [Inr (SettingsFrame True []), Inl (errorString ''i/o timeout''),
        Inr (GoAwayFrame 0 9)]" by simp
  have f: "frame_String responsive_peer = type_name" by (simp add: responsive_peer_def)
  show ?thesis
    using reader_behaviour [OF a, of responsive_peer state0 "[Inr (OtherFrame ''*http2.PingFrame'')]"]
    by (simp add: state0_def read_line_simps received_line_def f)
qed

section \<open>Properties of the process\<close>

lemma length_filter_update:
  "i < length xs \<Longrightarrow>
   length (filter P (xs[i := y])) + (if P (xs ! i) then 1 else 0) =
   length (filter P xs) + (if P y then 1 else 0)"
proof (induction xs arbitrary: i)
  case Nil
  then show ?case by simp
next
  case (Cons x xs)
  show ?case
  proof (cases i)
    case 0
    then show ?thesis by simp
  next
    case (Suc j)
    with Cons.prems have "j < length xs" by simp
    from Cons.IH [OF this] show ?thesis using Suc by simp
  qed
qed

lemma length_filter_update_same:
  "i < length xs \<Longrightarrow> P (xs ! i) = P y \<Longrightarrow>
   length (filter P (xs[i := y])) = length (filter P xs)"
  using length_filter_update [of i xs P y] by (cases "P y") simp_all

lemma length_filter_update_gain:
  "i < length xs \<Longrightarrow> \<not> P (xs ! i) \<Longrightarrow> P y \<Longrightarrow>
   length (filter P (xs[i := y])) = Suc (length (filter P xs))"
  using length_filter_update [of i xs P y] by simp

lemma length_filter_full:
  assumes "length (filter P xs) = length xs"
  shows "\<forall>x \<in> set xs. P x"
proof (rule ccontr)
  assume "\<not> (\<forall>x \<in> set xs. P x)"
  then obtain x where "x \<in> set xs" "\<not> P x" by blast
  then have "length (filter P xs) < length xs" by (rule length_filter_less)
  with assms show False by simp
qed

lemma length_filter_all: "\<forall>x \<in> set xs. P x \<Longrightarrow> length (filter P xs) = length xs"
  by (induction xs) simp_all

lemma length_filter_not_full:
  "i < length xs \<Longrightarrow> \<not> P (xs ! i) \<Longrightarrow> length (filter P xs) < length xs"
  by (rule length_filter_less [of "xs ! i"]) simp_all


lemma sync_inv_init: "sync_inv (init_process n)"
  by (simp add: sync_inv_def init_process_def past_signal_def)


lemma sync_inv_main_step:
  assumes inv: "sync_inv p" and run: "status p = Running" and st: "main_step p = Some p'"
  shows "sync_inv p'"
proof (cases "pc_main p")
  case (Launching i)
  show ?thesis
  proof (cases "i < numConns p")
    case True
    from inv Launching True have i: "i < length (pc_driver p)" "pc_driver p ! i = NotStarted"
      by (simp_all add: sync_inv_def)
    have p': "p' = p\<lparr>pc_driver := (pc_driver p)[i := Started], pc_main := Launching (i + 1)\<rparr>"
      using st Launching True by (simp add: main_step_def)
    have f: "length (filter (\<lambda>d. d = Finished) ((pc_driver p)[i := Started])) =
        length (filter (\<lambda>d. d = Finished) (pc_driver p))"
      using i by (simp add: length_filter_update_same)
    have g: "length (filter past_signal ((pc_driver p)[i := Started])) =
        length (filter past_signal (pc_driver p))"
      using i by (simp add: length_filter_update_same past_signal_def)
    show ?thesis using inv Launching i
      by (simp add: sync_inv_def p' f g nth_list_update past_signal_def)
  next
    case False
    then have "p' = p\<lparr>pc_main := Waiting\<rparr>" using st Launching by (simp add: main_step_def)
    then show ?thesis using inv Launching by (simp add: sync_inv_def)
  qed
next
  case Waiting
  with st have w: "wg_counter p = 0" and p': "p' = p\<lparr>pc_main := Closing\<rparr>"
    by (simp_all add: main_step_def split: if_splits)
  from inv w have "length (filter (\<lambda>d. d = Finished) (pc_driver p)) = length (pc_driver p)"
    by (simp add: sync_inv_def)
  then have "\<forall>d \<in> set (pc_driver p). d = Finished" by (rule length_filter_full)
  then show ?thesis using inv Waiting run by (simp add: sync_inv_def p')
next
  case Closing
  with st have p': "p' = p\<lparr>chan_closed := True, pc_main := Receiving 0\<rparr>"
    by (simp add: main_step_def)
  from inv Closing have a: "\<forall>d \<in> set (pc_driver p). d = Finished"
    and c: "chan_len p = length (filter past_signal (pc_driver p))"
    by (simp_all add: sync_inv_def)
  from a have "\<forall>d \<in> set (pc_driver p). past_signal d" by (simp add: past_signal_def)
  then have "length (filter past_signal (pc_driver p)) = length (pc_driver p)"
    by (rule length_filter_all)
  with c inv have "chan_len p = numConns p" by (simp add: sync_inv_def)
  then show ?thesis using inv Closing by (simp add: sync_inv_def p')
next
  case (Receiving i)
  from inv Receiving have r: "chan_len p + i = numConns p" "signals_received p = i"
    by (simp_all add: sync_inv_def)
  show ?thesis
  proof (cases "i < numConns p")
    case True
    with r have "0 < chan_len p" by simp
    then have "p' = p\<lparr>chan_len := chan_len p - 1, signals_received := signals_received p + 1,
        pc_main := Receiving (i + 1)\<rparr>"
      using st Receiving True by (simp add: main_step_def)
    then show ?thesis using inv Receiving r \<open>0 < chan_len p\<close> by (simp add: sync_inv_def)
  next
    case False
    then have "p' = p\<lparr>pc_main := Summary\<rparr>" using st Receiving by (simp add: main_step_def)
    moreover from False r have "i = numConns p" by simp
    ultimately show ?thesis using inv Receiving by (simp add: sync_inv_def)
  qed
next
  case Summary
  with st show ?thesis by (simp add: main_step_def)
qed


lemma sync_inv_not_closed:
  assumes inv: "sync_inv p" and i: "i < length (pc_driver p)" and n: "pc_driver p ! i \<noteq> Finished"
  shows "\<not> chan_closed p"
proof -
  from i have "pc_driver p ! i \<in> set (pc_driver p)" by simp
  with n have "\<not> (\<forall>d \<in> set (pc_driver p). d = Finished)" by blast
  with inv show ?thesis by (cases "pc_main p") (simp_all add: sync_inv_def)
qed

lemma sync_inv_update:
  assumes inv: "sync_inv p" and i: "i < length (pc_driver p)"
    and old: "pc_driver p ! i \<noteq> Finished" "pc_driver p ! i \<noteq> NotStarted"
    and new: "d \<noteq> Finished" "past_signal d = past_signal (pc_driver p ! i)"
  shows "sync_inv (p\<lparr>pc_driver := (pc_driver p)[i := d]\<rparr>)"
proof -
  have f: "length (filter (\<lambda>d. d = Finished) ((pc_driver p)[i := d])) =
      length (filter (\<lambda>d. d = Finished) (pc_driver p))"
    using i old new by (simp add: length_filter_update_same)
  have g: "length (filter past_signal ((pc_driver p)[i := d])) =
      length (filter past_signal (pc_driver p))"
    using i new by (simp add: length_filter_update_same)
  from i have "pc_driver p ! i \<in> set (pc_driver p)" by simp
  with old have nf: "\<not> (\<forall>d \<in> set (pc_driver p). d = Finished)" by blast
  show ?thesis
  proof (cases "pc_main p")
    case (Launching k)
    with inv old i have "i < k" by (auto simp: sync_inv_def not_le [symmetric])
    then show ?thesis using inv Launching i new
      by (simp add: sync_inv_def f g nth_list_update)
  next
    case Waiting
    then show ?thesis using inv i new by (simp add: sync_inv_def f g nth_list_update)
  next
    case Closing
    with inv nf show ?thesis by (simp add: sync_inv_def)
  next
    case (Receiving k)
    with inv nf show ?thesis by (simp add: sync_inv_def)
  next
    case Summary
    with inv nf show ?thesis by (simp add: sync_inv_def)
  qed
qed


lemma sync_inv_ghost:
  "sync_inv (p\<lparr>shared_counter := c\<rparr>) = sync_inv p"
  "sync_inv (p\<lparr>allocated := a\<rparr>) = sync_inv p"
  by (simp_all add: sync_inv_def split: main_pc.split)

lemma sync_inv_signal:
  assumes inv: "sync_inv p" and i: "i < length (pc_driver p)"
    and old: "pc_driver p ! i = Flooding"
  shows "\<not> chan_closed p" and
    "sync_inv (p\<lparr>chan_len := chan_len p + 1,
       signals_sent := (signals_sent p)[i := signals_sent p ! i + 1],
       pc_driver := (pc_driver p)[i := Signalled]\<rparr>)"
proof -
  show nc: "\<not> chan_closed p" using sync_inv_not_closed [OF inv i] old by simp
  have f: "length (filter (\<lambda>d. d = Finished) ((pc_driver p)[i := Signalled])) =
      length (filter (\<lambda>d. d = Finished) (pc_driver p))"
    using i old by (simp add: length_filter_update_same)
  have g: "length (filter past_signal ((pc_driver p)[i := Signalled])) =
      Suc (length (filter past_signal (pc_driver p)))"
    using i old by (simp add: length_filter_update_gain past_signal_def)
  from inv i old have s: "signals_sent p ! i = 0" by (simp add: sync_inv_def past_signal_def)
  from i have "pc_driver p ! i \<in> set (pc_driver p)" by simp
  with old have nf: "\<not> (\<forall>d \<in> set (pc_driver p). d = Finished)" by auto
  show "sync_inv (p\<lparr>chan_len := chan_len p + 1,
       signals_sent := (signals_sent p)[i := signals_sent p ! i + 1],
       pc_driver := (pc_driver p)[i := Signalled]\<rparr>)"
  proof (cases "pc_main p")
    case (Launching k)
    with inv old i have "i < k" by (auto simp: sync_inv_def not_le [symmetric])
    then show ?thesis using inv Launching i nc s
      by (simp add: sync_inv_def f g nth_list_update past_signal_def)
  next
    case Waiting
    then show ?thesis using inv i nc s
      by (simp add: sync_inv_def f g nth_list_update past_signal_def)
  next
    case Closing
    with inv nf show ?thesis by (simp add: sync_inv_def)
  next
    case (Receiving k)
    with inv nf show ?thesis by (simp add: sync_inv_def)
  next
    case Summary
    with inv nf show ?thesis by (simp add: sync_inv_def)
  qed
qed

lemma sync_inv_done:
  assumes inv: "sync_inv p" and i: "i < length (pc_driver p)"
    and old: "pc_driver p ! i = Signalled"
  shows "0 < wg_counter p" and
    "sync_inv (p\<lparr>wg_counter := wg_counter p - 1,
       pc_driver := (pc_driver p)[i := Finished]\<rparr>)"
proof -
  have lt: "length (filter (\<lambda>d. d = Finished) (pc_driver p)) < length (pc_driver p)"
    using i old by (intro length_filter_not_full [of i]) simp_all
  with inv show "0 < wg_counter p" by (simp add: sync_inv_def)
  have f: "length (filter (\<lambda>d. d = Finished) ((pc_driver p)[i := Finished])) =
      Suc (length (filter (\<lambda>d. d = Finished) (pc_driver p)))"
    using i old by (simp add: length_filter_update_gain)
  have g: "length (filter past_signal ((pc_driver p)[i := Finished])) =
      length (filter past_signal (pc_driver p))"
    using i old by (simp add: length_filter_update_same past_signal_def)
  from i have "pc_driver p ! i \<in> set (pc_driver p)" by simp
  with old have nf: "\<not> (\<forall>d \<in> set (pc_driver p). d = Finished)" by auto
  show "sync_inv (p\<lparr>wg_counter := wg_counter p - 1,
       pc_driver := (pc_driver p)[i := Finished]\<rparr>)"
  proof (cases "pc_main p")
    case (Launching k)
    with inv old i have "i < k" by (auto simp: sync_inv_def not_le [symmetric])
    then show ?thesis using inv Launching i old
      by (simp add: sync_inv_def f g nth_list_update past_signal_def)
  next
    case Waiting
    then show ?thesis using inv i old
      by (simp add: sync_inv_def f g nth_list_update past_signal_def)
  next
    case Closing
    with inv nf show ?thesis by (simp add: sync_inv_def)
  next
    case (Receiving k)
    with inv nf show ?thesis by (simp add: sync_inv_def)
  next
    case Summary
    with inv nf show ?thesis by (simp add: sync_inv_def)
  qed
qed

lemma sync_inv_driver_step:
  assumes inv: "sync_inv p" and st: "driver_step i p = Some p'"
  shows "sync_inv p'"
proof -
  from st have i: "i < length (pc_driver p)"
    by (simp add: driver_step_def split: if_splits)
  show ?thesis
  proof (cases "pc_driver p ! i")
    case NotStarted
    with st i show ?thesis by (simp add: driver_step_def)
  next
    case Started
    with st i have "p' = (p\<lparr>shared_counter := 1\<rparr>)\<lparr>pc_driver := (pc_driver p)[i := Seeded]\<rparr>"
      by (simp add: driver_step_def)
    moreover have "sync_inv ((p\<lparr>shared_counter := 1\<rparr>)
        \<lparr>pc_driver := (pc_driver (p\<lparr>shared_counter := 1\<rparr>))[i := Seeded]\<rparr>)"
      using inv i Started by (intro sync_inv_update) (simp_all add: sync_inv_ghost past_signal_def)
    ultimately show ?thesis by simp
  next
    case Seeded
    with st i have "p' = (p\<lparr>shared_counter := shared_counter p + 2,
        allocated := allocated p @ [(i, shared_counter p + 2)]\<rparr>)
        \<lparr>pc_driver := (pc_driver p)[i := Flooding]\<rparr>"
      by (simp add: driver_step_def Let_def)
    moreover have "sync_inv ((p\<lparr>shared_counter := shared_counter p + 2,
        allocated := allocated p @ [(i, shared_counter p + 2)]\<rparr>)
        \<lparr>pc_driver := (pc_driver (p\<lparr>shared_counter := shared_counter p + 2,
        allocated := allocated p @ [(i, shared_counter p + 2)]\<rparr>))[i := Flooding]\<rparr>)"
      using inv i Seeded by (intro sync_inv_update) (simp_all add: sync_inv_ghost past_signal_def)
    ultimately show ?thesis by simp
  next
    case Flooding
    note s = sync_inv_signal [OF inv i Flooding]
    from st i Flooding s(1) have "p' = p\<lparr>chan_len := chan_len p + 1,
       signals_sent := (signals_sent p)[i := signals_sent p ! i + 1],
       pc_driver := (pc_driver p)[i := Signalled]\<rparr>"
      by (simp add: driver_step_def split: if_splits)
    with s(2) show ?thesis by simp
  next
    case Signalled
    note s = sync_inv_done [OF inv i Signalled]
    from st i Signalled s(1) have "p' = p\<lparr>wg_counter := wg_counter p - 1,
       pc_driver := (pc_driver p)[i := Finished]\<rparr>"
      by (simp add: driver_step_def)
    with s(2) show ?thesis by simp
  next
    case Finished
    with st i show ?thesis by (simp add: driver_step_def)
  qed
qed

lemma sync_inv_fatal_step:
  assumes inv: "sync_inv p" and st: "fatal_step i p = Some p'"
  shows "sync_inv p'"
proof -
  from st have i: "i < length (pc_driver p)" "pc_driver p ! i = Seeded"
    and p': "p' = p\<lparr>status := Exited\<rparr>"
    by (simp_all add: fatal_step_def split: if_splits)
  from i(1) have "pc_driver p ! i \<in> set (pc_driver p)" by (rule nth_mem)
  then have "Seeded \<in> set (pc_driver p)" using i(2) by simp
  then have nf: "\<not> (\<forall>d \<in> set (pc_driver p). d = Finished)" by auto
  show ?thesis using inv nf by (cases "pc_main p") (simp_all add: sync_inv_def p')
qed

lemma sync_inv_step: "sync_inv p \<Longrightarrow> step a p = Some p' \<Longrightarrow> sync_inv p'"
  by (cases a)
    (auto simp: step_def split: if_splits
      intro: sync_inv_main_step sync_inv_driver_step sync_inv_fatal_step)

lemma sync_inv_run: "sync_inv p \<Longrightarrow> run sched p = Some p' \<Longrightarrow> sync_inv p'"
proof (induction sched arbitrary: p)
  case Nil
  then show ?case by simp
next
  case (Cons a sched)
  from Cons.prems(2) obtain q where q: "step a p = Some q" "run sched q = Some p'"
    by (auto split: option.splits)
  from Cons.IH [OF sync_inv_step [OF Cons.prems(1) q(1)] q(2)] show ?case .
qed


lemma numConns_step: "step a q = Some q' \<Longrightarrow> numConns q' = numConns q"
  by (cases a)
    (auto simp: step_def main_step_def driver_step_def fatal_step_def Let_def
      split: if_splits main_pc.splits driver_pc.splits)

lemma numConns_run: "run sched q = Some q' \<Longrightarrow> numConns q' = numConns q"
proof (induction sched arbitrary: q)
  case Nil
  then show ?case by simp
next
  case (Cons a sched)
  then show ?case using numConns_step by (auto split: option.splits)
qed

subsection \<open>Progress of the process\<close>

lemma sum_list_map_update:
  "i < length xs \<Longrightarrow>
   sum_list (map f (xs[i := y])) + f (xs ! i) = sum_list (map f xs) + (f y :: nat)"
proof (induction xs arbitrary: i)
  case Nil
  then show ?case by simp
next
  case (Cons x xs)
  show ?case
  proof (cases i)
    case 0
    then show ?thesis by simp
  next
    case (Suc j)
    with Cons.prems have "j < length xs" by simp
    from Cons.IH [OF this] show ?thesis using Suc by simp
  qed
qed

lemma launched_inv_init: "launched_inv (init_process n)"
  by (simp add: launched_inv_def init_process_def)

lemma launched_inv_main_step:
  assumes inv: "launched_inv p" and sy: "sync_inv p" and st: "main_step p = Some p'"
  shows "launched_inv p'"
proof (cases "pc_main p")
  case (Launching i)
  from sy have len: "length (pc_driver p) = numConns p" by (simp add: sync_inv_def)
  show ?thesis
  proof (cases "i < numConns p")
    case True
    then have p': "p' = p\<lparr>pc_driver := (pc_driver p)[i := Started], pc_main := Launching (i + 1)\<rparr>"
      using st Launching by (simp add: main_step_def)
    have "(pc_driver p)[i := Started] ! j \<noteq> NotStarted"
      if "j < i + 1" "j < length (pc_driver p)" for j
    proof (cases "j = i")
      case True
      with that show ?thesis by simp
    next
      case False
      with that have "j < i" by simp
      with inv Launching that False show ?thesis by (simp add: launched_inv_def)
    qed
    then show ?thesis by (simp add: launched_inv_def p')
  next
    case False
    then have p': "p' = p\<lparr>pc_main := Waiting\<rparr>" using st Launching by (simp add: main_step_def)
    have "d \<noteq> NotStarted" if "d \<in> set (pc_driver p)" for d
    proof -
      from that obtain j where j: "j < length (pc_driver p)" "pc_driver p ! j = d"
        by (auto simp: in_set_conv_nth)
      with False len have "j < i" by simp
      with inv Launching j show ?thesis by (auto simp: launched_inv_def)
    qed
    then show ?thesis by (simp add: launched_inv_def p')
  qed
next
  case Waiting
  with st inv show ?thesis by (auto simp: main_step_def launched_inv_def split: if_splits)
next
  case Closing
  with st inv show ?thesis by (auto simp: main_step_def launched_inv_def)
next
  case (Receiving i)
  with st inv show ?thesis by (auto simp: main_step_def launched_inv_def split: if_splits)
next
  case Summary
  with st show ?thesis by (simp add: main_step_def)
qed

lemma launched_inv_update:
  assumes inv: "launched_inv p" and d: "d \<noteq> NotStarted"
  shows "launched_inv (p\<lparr>pc_driver := (pc_driver p)[i := d]\<rparr>)"
proof -
  have s: "set ((pc_driver p)[i := d]) \<subseteq> insert d (set (pc_driver p))"
    by (rule set_update_subset_insert)
  show ?thesis
  proof (cases "pc_main p")
    case (Launching k)
    have "(pc_driver p)[i := d] ! j \<noteq> NotStarted"
      if j: "j < k" "j < length (pc_driver p)" for j
    proof (cases "j = i")
      case True
      with j d show ?thesis by simp
    next
      case False
      with inv Launching j show ?thesis by (simp add: launched_inv_def)
    qed
    with Launching show ?thesis by (simp add: launched_inv_def)
  next
    case Waiting
    with inv d s show ?thesis by (auto simp: launched_inv_def)
  next
    case Closing
    with inv d s show ?thesis by (auto simp: launched_inv_def)
  next
    case (Receiving k)
    with inv d s show ?thesis by (auto simp: launched_inv_def)
  next
    case Summary
    with inv d s show ?thesis by (auto simp: launched_inv_def)
  qed
qed

lemma launched_inv_other:
  "launched_inv (p\<lparr>shared_counter := c\<rparr>) = launched_inv p"
  "launched_inv (p\<lparr>allocated := a\<rparr>) = launched_inv p"
  "launched_inv (p\<lparr>chan_len := l\<rparr>) = launched_inv p"
  "launched_inv (p\<lparr>signals_sent := ss\<rparr>) = launched_inv p"
  "launched_inv (p\<lparr>wg_counter := w\<rparr>) = launched_inv p"
  "launched_inv (p\<lparr>status := st\<rparr>) = launched_inv p"
  by (simp_all add: launched_inv_def split: main_pc.split)

lemma launched_inv_driver_step:
  assumes inv: "launched_inv p" and st: "driver_step i p = Some p'"
  shows "launched_inv p'"
proof -
  have u: "launched_inv (q\<lparr>pc_driver := (pc_driver q)[i := d]\<rparr>)"
    if "launched_inv q" "d \<noteq> NotStarted" for q d
    using that by (rule launched_inv_update)
  have 1: "launched_inv (p\<lparr>shared_counter := c, pc_driver := (pc_driver p)[i := Seeded]\<rparr>)" for c
    using u [of "p\<lparr>shared_counter := c\<rparr>" Seeded] inv by (simp add: launched_inv_other)
  have 2: "launched_inv (p\<lparr>shared_counter := c, allocated := a,
      pc_driver := (pc_driver p)[i := Flooding]\<rparr>)" for c a
    using u [of "p\<lparr>shared_counter := c, allocated := a\<rparr>" Flooding] inv
    by (simp add: launched_inv_def split: main_pc.splits)
  have 3: "launched_inv (p\<lparr>chan_len := l, signals_sent := ss,
      pc_driver := (pc_driver p)[i := Signalled]\<rparr>)" for l ss
    using u [of "p\<lparr>chan_len := l, signals_sent := ss\<rparr>" Signalled] inv
    by (simp add: launched_inv_def split: main_pc.splits)
  have 4: "launched_inv (p\<lparr>wg_counter := w, pc_driver := (pc_driver p)[i := Finished]\<rparr>)" for w
    using u [of "p\<lparr>wg_counter := w\<rparr>" Finished] inv by (simp add: launched_inv_other)
  have 5: "launched_inv (p\<lparr>status := Panicked\<rparr>)" using inv by (simp add: launched_inv_other)
  show ?thesis using st 1 2 3 4 5
    by (auto simp: driver_step_def Let_def split: if_splits driver_pc.splits)
qed

lemma launched_inv_step:
  assumes "launched_inv p" "sync_inv p" "step a p = Some p'"
  shows "launched_inv p'"
proof (cases a)
  case StepMain
  with assms show ?thesis
    by (auto simp: step_def split: if_splits intro: launched_inv_main_step)
next
  case (StepDriver i)
  with assms show ?thesis
    by (auto simp: step_def split: if_splits intro: launched_inv_driver_step)
next
  case (StepFatal i)
  with assms show ?thesis
    by (auto simp: step_def fatal_step_def launched_inv_other split: if_splits)
qed

lemma launched_inv_run:
  "launched_inv p \<Longrightarrow> sync_inv p \<Longrightarrow> run sched p = Some p' \<Longrightarrow> launched_inv p'"
proof (induction sched arbitrary: p)
  case Nil
  then show ?case by simp
next
  case (Cons a sched)
  from Cons.prems(3) obtain q where q: "step a p = Some q" "run sched q = Some p'"
    by (auto split: option.splits)
  from Cons.IH [OF launched_inv_step [OF Cons.prems(1,2) q(1)]
      sync_inv_step [OF Cons.prems(2) q(1)] q(2)]
  show ?case .
qed

lemma send_enabled:
  assumes inv: "sync_inv p" and run: "status p = Running"
    and i: "i < length (pc_driver p)" and old: "pc_driver p ! i = Flooding"
  shows "step (StepDriver i) p =
    Some (p\<lparr>chan_len := chan_len p + 1,
            signals_sent := (signals_sent p)[i := signals_sent p ! i + 1],
            pc_driver := (pc_driver p)[i := Signalled]\<rparr>)"
proof -
  from sync_inv_signal(1) [OF inv i old] have nc: "\<not> chan_closed p" .
  have "length (filter past_signal (pc_driver p)) < length (pc_driver p)"
    using i old by (intro length_filter_not_full [of i]) (simp_all add: past_signal_def)
  with inv nc have "chan_len p < numConns p" by (simp add: sync_inv_def)
  with nc i old run show ?thesis by (simp add: step_def driver_step_def)
qed

lemma done_enabled:
  assumes inv: "sync_inv p" and run: "status p = Running"
    and i: "i < length (pc_driver p)" and old: "pc_driver p ! i = Signalled"
  shows "step (StepDriver i) p =
    Some (p\<lparr>wg_counter := wg_counter p - 1, pc_driver := (pc_driver p)[i := Finished]\<rparr>)"
proof -
  from sync_inv_done(1) [OF inv i old] have "0 < wg_counter p" .
  with i old run show ?thesis by (simp add: step_def driver_step_def)
qed

lemma rank_update:
  assumes i: "i < length (pc_driver p)" and d: "rank_driver d < rank_driver (pc_driver p ! i)"
    and q: "numConns q = numConns p" "pc_main q = pc_main p"
      "pc_driver q = (pc_driver p)[i := d]"
  shows "rank q < rank p"
proof -
  from sum_list_map_update [OF i, of rank_driver d]
  have "sum_list (map rank_driver ((pc_driver p)[i := d])) + rank_driver (pc_driver p ! i) =
      sum_list (map rank_driver (pc_driver p)) + rank_driver d" .
  with d have "sum_list (map rank_driver ((pc_driver p)[i := d])) <
      sum_list (map rank_driver (pc_driver p))" by linarith
  then show ?thesis by (simp add: rank_def q)
qed

lemma driver_progress:
  assumes inv: "sync_inv p" and run: "status p = Running"
    and i: "i < length (pc_driver p)"
    and ns: "pc_driver p ! i \<noteq> NotStarted" and nf: "pc_driver p ! i \<noteq> Finished"
  shows "\<exists>p'. step (StepDriver i) p = Some p' \<and> status p' = Running \<and> rank p' < rank p"
proof (cases "pc_driver p ! i")
  case NotStarted
  with ns show ?thesis by simp
next
  case Started
  let ?q = "p\<lparr>shared_counter := 1, pc_driver := (pc_driver p)[i := Seeded]\<rparr>"
  have "step (StepDriver i) p = Some ?q" using i Started run
    by (simp add: step_def driver_step_def)
  moreover have "rank ?q < rank p" using i Started by (intro rank_update [of i]) simp_all
  ultimately show ?thesis using run by simp
next
  case Seeded
  let ?q = "p\<lparr>shared_counter := shared_counter p + 2,
      allocated := allocated p @ [(i, shared_counter p + 2)],
      pc_driver := (pc_driver p)[i := Flooding]\<rparr>"
  have "step (StepDriver i) p = Some ?q" using i Seeded run
    by (simp add: step_def driver_step_def Let_def)
  moreover have "rank ?q < rank p" using i Seeded by (intro rank_update [of i]) simp_all
  ultimately show ?thesis using run by simp
next
  case Flooding
  let ?q = "p\<lparr>chan_len := chan_len p + 1,
      signals_sent := (signals_sent p)[i := signals_sent p ! i + 1],
      pc_driver := (pc_driver p)[i := Signalled]\<rparr>"
  have "step (StepDriver i) p = Some ?q" using send_enabled [OF inv run i Flooding] .
  moreover have "rank ?q < rank p" using i Flooding by (intro rank_update [of i]) simp_all
  ultimately show ?thesis using run by simp
next
  case Signalled
  let ?q = "p\<lparr>wg_counter := wg_counter p - 1, pc_driver := (pc_driver p)[i := Finished]\<rparr>"
  have "step (StepDriver i) p = Some ?q" using done_enabled [OF inv run i Signalled] .
  moreover have "rank ?q < rank p" using i Signalled by (intro rank_update [of i]) simp_all
  ultimately show ?thesis using run by simp
next
  case Finished
  with nf show ?thesis by simp
qed

lemma main_progress:
  assumes inv: "sync_inv p" and run: "status p = Running"
    and m: "pc_main p \<noteq> Summary" "pc_main p = Waiting \<longrightarrow> wg_counter p = 0"
  shows "\<exists>p'. step StepMain p = Some p' \<and> status p' = Running \<and> rank p' < rank p"
proof (cases "pc_main p")
  case (Launching i)
  show ?thesis
  proof (cases "i < numConns p")
    case True
    let ?q = "p\<lparr>pc_driver := (pc_driver p)[i := Started], pc_main := Launching (i + 1)\<rparr>"
    from inv Launching True have i: "i < length (pc_driver p)" "pc_driver p ! i = NotStarted"
      by (simp_all add: sync_inv_def)
    from sum_list_map_update [OF i(1), of rank_driver Started] i(2)
    have "sum_list (map rank_driver ((pc_driver p)[i := Started])) =
        sum_list (map rank_driver (pc_driver p))" by simp
    then have "rank ?q < rank p" using Launching True by (simp add: rank_def)
    moreover have "step StepMain p = Some ?q" using Launching True run
      by (simp add: step_def main_step_def)
    ultimately show ?thesis using run by simp
  next
    case False
    let ?q = "p\<lparr>pc_main := Waiting\<rparr>"
    have "step StepMain p = Some ?q" using Launching False run
      by (simp add: step_def main_step_def)
    moreover have "rank ?q < rank p" using Launching by (simp add: rank_def)
    ultimately show ?thesis using run by simp
  qed
next
  case Waiting
  let ?q = "p\<lparr>pc_main := Closing\<rparr>"
  have "step StepMain p = Some ?q" using Waiting m(2) run
    by (simp add: step_def main_step_def)
  moreover have "rank ?q < rank p" using Waiting by (simp add: rank_def)
  ultimately show ?thesis using run by simp
next
  case Closing
  let ?q = "p\<lparr>chan_closed := True, pc_main := Receiving 0\<rparr>"
  have "step StepMain p = Some ?q" using Closing run
    by (simp add: step_def main_step_def)
  moreover have "rank ?q < rank p" using Closing by (simp add: rank_def)
  ultimately show ?thesis using run by simp
next
  case (Receiving i)
  from inv Receiving have r: "chan_len p + i = numConns p" by (simp add: sync_inv_def)
  show ?thesis
  proof (cases "i < numConns p")
    case True
    let ?q = "p\<lparr>chan_len := chan_len p - 1, signals_received := signals_received p + 1,
        pc_main := Receiving (i + 1)\<rparr>"
    from True r have "0 < chan_len p" by simp
    then have "step StepMain p = Some ?q" using Receiving True run
      by (simp add: step_def main_step_def)
    moreover have "rank ?q < rank p" using Receiving True by (simp add: rank_def)
    ultimately show ?thesis using run by simp
  next
    case False
    let ?q = "p\<lparr>pc_main := Summary\<rparr>"
    have "step StepMain p = Some ?q" using Receiving False run
      by (simp add: step_def main_step_def)
    moreover have "rank ?q < rank p" using Receiving by (simp add: rank_def)
    ultimately show ?thesis using run by simp
  qed
next
  case Summary
  with m show ?thesis by simp
qed

lemma progress:
  assumes inv: "sync_inv p" and la: "launched_inv p" and run: "status p = Running"
    and m: "pc_main p \<noteq> Summary"
  shows "\<exists>a p'. step a p = Some p' \<and> status p' = Running \<and> rank p' < rank p"
proof (cases "pc_main p = Waiting \<and> wg_counter p \<noteq> 0")
  case False
  then have "pc_main p = Waiting \<longrightarrow> wg_counter p = 0" by blast
  from main_progress [OF inv run m this] show ?thesis by blast
next
  case True
  then have w: "pc_main p = Waiting" and c: "wg_counter p \<noteq> 0" by simp_all
  have "\<not> (\<forall>d \<in> set (pc_driver p). d = Finished)"
  proof
    assume "\<forall>d \<in> set (pc_driver p). d = Finished"
    then have "length (filter (\<lambda>d. d = Finished) (pc_driver p)) = length (pc_driver p)"
      by (rule length_filter_all)
    with inv c show False by (simp add: sync_inv_def)
  qed
  then obtain i where i: "i < length (pc_driver p)" "pc_driver p ! i \<noteq> Finished"
    by (auto simp: in_set_conv_nth)
  from la w i(1) have "pc_driver p ! i \<noteq> NotStarted" by (simp add: launched_inv_def)
  from driver_progress [OF inv run i(1) this i(2)] show ?thesis by blast
qed

lemma can_finish:
  "sync_inv p \<Longrightarrow> launched_inv p \<Longrightarrow> status p = Running \<Longrightarrow>
   \<exists>sched p'. run sched p = Some p' \<and> pc_main p' = Summary"
proof (induction "rank p" arbitrary: p rule: less_induct)
  case less
  show ?case
  proof (cases "pc_main p = Summary")
    case True
    then have "run [] p = Some p \<and> pc_main p = Summary" by simp
    then show ?thesis by blast
  next
    case False
    from progress [OF less.prems False] obtain a q where
      q: "step a p = Some q" "status q = Running" "rank q < rank p" by blast
    from less.hyps [OF q(3) sync_inv_step [OF less.prems(1) q(1)]
        launched_inv_step [OF less.prems(2,1) q(1)] q(2)]
    obtain sched p' where "run sched q = Some p'" "pc_main p' = Summary" by blast
    with q(1) have "run (a # sched) p = Some p' \<and> pc_main p' = Summary" by simp
    then show ?thesis by blast
  qed
qed

subsection \<open>C4: the coordinator sees every completion signal\<close>

text \<open>
  Claim C4. A run of \<open>sendRequests\<close> sends exactly one signal on \<open>doneChan\<close>,
  whatever its writes return. And in every interleaving of \<open>main\<close> with its \<open>n\<close>
  drivers: when \<open>main\<close> has reached the call of \<open>printSummary\<close>, it has taken \<open>n\<close>
  signals of drivers from the channel (none of its receives returned the zero
  value of the closed channel), every driver has sent exactly one signal and has
  finished, and no goroutine has panicked or ended the process. The drivers are not
  held up on the way: in every state a running process reaches, a driver that has
  come to its send on \<open>doneChan\<close> can make it (the channel has room and is not
  closed), a driver that has sent can call \<^verbatim>\<open>wg.Done()\<close> without a panic, and some
  schedule takes the process on to the call of \<open>printSummary\<close>.
\<close>

theorem coordinator_sees_all_signals:
  "doneChan (sendRequests fl ev hc s) = doneChan s + 1 \<and>
   (run sched (init_process n) = Some p \<and> pc_main p = Summary \<longrightarrow>
      signals_received p = n \<and> signals_sent p = replicate n 1 \<and>
      pc_driver p = replicate n Finished \<and> status p = Running) \<and>
   (run sched (init_process n) = Some p \<and> status p = Running \<and> i < n \<and>
    pc_driver p ! i = Flooding \<longrightarrow>
      step (StepDriver i) p =
        Some (p\<lparr>chan_len := chan_len p + 1,
                signals_sent := (signals_sent p)[i := signals_sent p ! i + 1],
                pc_driver := (pc_driver p)[i := Signalled]\<rparr>)) \<and>
   (run sched (init_process n) = Some p \<and> status p = Running \<and> i < n \<and>
    pc_driver p ! i = Signalled \<longrightarrow>
      step (StepDriver i) p =
        Some (p\<lparr>wg_counter := wg_counter p - 1,
                pc_driver := (pc_driver p)[i := Finished]\<rparr>)) \<and>
   (run sched (init_process n) = Some p \<and> status p = Running \<longrightarrow>
      (\<exists>sched' p'. run sched' p = Some p' \<and> pc_main p' = Summary))"
proof -
  have 1: "signals_received p = n \<and> signals_sent p = replicate n 1 \<and>
      pc_driver p = replicate n Finished \<and> status p = Running"
    if r: "run sched (init_process n) = Some p" and m: "pc_main p = Summary"
  proof -
    from numConns_run [OF r] have nc: "numConns p = n" by (simp add: init_process_def)
    from sync_inv_run [OF sync_inv_init r] have inv: "sync_inv p" .
    from inv m nc have a: "signals_received p = n" "status p = Running"
      "\<forall>d \<in> set (pc_driver p). d = Finished" "length (pc_driver p) = n"
      "length (signals_sent p) = n"
      by (simp_all add: sync_inv_def)
    from a(3,4) have d: "pc_driver p = replicate n Finished"
      by (simp add: list_eq_iff_nth_eq)
    from inv nc d have "\<forall>i<n. signals_sent p ! i = 1"
      by (simp add: sync_inv_def past_signal_def)
    with a(5) have "signals_sent p = replicate n 1" by (simp add: list_eq_iff_nth_eq)
    with a d show ?thesis by simp
  qed
  have len: "length (pc_driver p) = n" and inv: "sync_inv p" and la: "launched_inv p"
    if r: "run sched (init_process n) = Some p"
  proof -
    from sync_inv_run [OF sync_inv_init r] show inv: "sync_inv p" .
    from numConns_run [OF r] have "numConns p = n" by (simp add: init_process_def)
    with inv show "length (pc_driver p) = n" by (simp add: sync_inv_def)
    from launched_inv_run [OF launched_inv_init sync_inv_init r] show "launched_inv p" .
  qed
  have 2: "step (StepDriver i) p =
        Some (p\<lparr>chan_len := chan_len p + 1,
                signals_sent := (signals_sent p)[i := signals_sent p ! i + 1],
                pc_driver := (pc_driver p)[i := Signalled]\<rparr>)"
    if "run sched (init_process n) = Some p" "status p = Running" "i < n"
      "pc_driver p ! i = Flooding"
    using that len inv by (intro send_enabled) simp_all
  have 3: "step (StepDriver i) p =
        Some (p\<lparr>wg_counter := wg_counter p - 1,
                pc_driver := (pc_driver p)[i := Finished]\<rparr>)"
    if "run sched (init_process n) = Some p" "status p = Running" "i < n"
      "pc_driver p ! i = Signalled"
    using that len inv by (intro done_enabled) simp_all
  have 4: "\<exists>sched' p'. run sched' p = Some p' \<and> pc_main p' = Summary"
    if "run sched (init_process n) = Some p" "status p = Running"
    using that inv la by (intro can_finish) simp_all
  show ?thesis using 1 2 3 4 by (simp add: sendRequests_frame)
qed

theorem coordinator_sees_all_signals_witness:
  "run [StepMain, StepDriver 0, StepMain, StepDriver 1, StepDriver 0, StepMain,
        StepDriver 1, StepDriver 1, StepDriver 0, StepDriver 1, StepDriver 0,
        StepMain, StepMain, StepMain, StepMain, StepMain] (init_process 2) =
     Some \<lparr>numConns = 2, status = Running, pc_main = Summary,
           pc_driver = [Finished, Finished], shared_counter = 5, wg_counter = 0,
           chan_len = 0, chan_closed = True, signals_received = 2,
           signals_sent = [1, 1], allocated = [(0, 3), (1, 5)]\<rparr>
   \<and> run [StepMain, StepMain, StepMain, StepMain,
          StepDriver 0, StepDriver 0, StepDriver 0, StepDriver 0,
          StepDriver 1, StepDriver 1, StepDriver 1, StepDriver 1,
          StepDriver 2, StepDriver 2] (init_process 3) =
     Some \<lparr>numConns = 3, status = Running, pc_main = Waiting,
           pc_driver = [Finished, Finished, Flooding], shared_counter = 3, wg_counter = 1,
           chan_len = 2, chan_closed = False, signals_received = 0,
           signals_sent = [1, 1, 0], allocated = [(0, 3), (1, 3), (2, 3)]\<rparr>
   \<and> step (StepDriver 2)
        \<lparr>numConns = 3, status = Running, pc_main = Waiting,
         pc_driver = [Finished, Finished, Flooding], shared_counter = 3, wg_counter = 1,
         chan_len = 2, chan_closed = False, signals_received = 0,
         signals_sent = [1, 1, 0], allocated = [(0, 3), (1, 3), (2, 3)]\<rparr> =
     Some \<lparr>numConns = 3, status = Running, pc_main = Waiting,
           pc_driver = [Finished, Finished, Signalled], shared_counter = 3, wg_counter = 1,
           chan_len = 3, chan_closed = False, signals_received = 0,
           signals_sent = [1, 1, 1], allocated = [(0, 3), (1, 3), (2, 3)]\<rparr>
   \<and> (\<exists>sched' p'. run sched'
        \<lparr>numConns = 3, status = Running, pc_main = Waiting,
         pc_driver = [Finished, Finished, Flooding], shared_counter = 3, wg_counter = 1,
         chan_len = 2, chan_closed = False, signals_received = 0,
         signals_sent = [1, 1, 0], allocated = [(0, 3), (1, 3), (2, 3)]\<rparr> = Some p' \<and>
        pc_main p' = Summary)"
proof -
  define P where "P = \<lparr>numConns = 3, status = Running, pc_main = Waiting,
         pc_driver = [Finished, Finished, Flooding], shared_counter = 3, wg_counter = 1,
         chan_len = 2, chan_closed = False, signals_received = 0,
         signals_sent = [1, 1, 0], allocated = [(0, 3), (1, 3), (2, 3::32 word)]\<rparr>"
  have r: "run [StepMain, StepDriver 0, StepMain, StepDriver 1, StepDriver 0, StepMain,
        StepDriver 1, StepDriver 1, StepDriver 0, StepDriver 1, StepDriver 0,
        StepMain, StepMain, StepMain, StepMain, StepMain] (init_process 2) =
     Some \<lparr>numConns = 2, status = Running, pc_main = Summary,
           pc_driver = [Finished, Finished], shared_counter = 5, wg_counter = 0,
           chan_len = 0, chan_closed = True, signals_received = 2,
           signals_sent = [1, 1], allocated = [(0, 3), (1, 5)]\<rparr>"
    by (simp add: init_process_def step_def main_step_def driver_step_def numeral_2_eq_2)
  have r3: "run [StepMain, StepMain, StepMain, StepMain,
          StepDriver 0, StepDriver 0, StepDriver 0, StepDriver 0,
          StepDriver 1, StepDriver 1, StepDriver 1, StepDriver 1,
          StepDriver 2, StepDriver 2] (init_process 3) = Some P"
    by (simp add: P_def init_process_def step_def main_step_def driver_step_def
        numeral_3_eq_3 Let_def)
  have s: "status P = Running" "(2::nat) < 3" "pc_driver P ! 2 = Flooding"
    by (simp_all add: P_def)
  note t = coordinator_sees_all_signals [where n = 3 and p = P and i = 2]
  from t [THEN conjunct2, THEN conjunct2, THEN conjunct1, rule_format,
      OF conjI [OF r3 conjI [OF s(1) conjI [OF s(2) s(3)]]]]
  have e: "step (StepDriver 2) P =
     Some \<lparr>numConns = 3, status = Running, pc_main = Waiting,
           pc_driver = [Finished, Finished, Signalled], shared_counter = 3, wg_counter = 1,
           chan_len = 3, chan_closed = False, signals_received = 0,
           signals_sent = [1, 1, 1], allocated = [(0, 3), (1, 3), (2, 3)]\<rparr>"
    by (simp add: P_def)
  from t [THEN conjunct2, THEN conjunct2, THEN conjunct2, THEN conjunct2, rule_format,
      OF conjI [OF r3 s(1)]]
  have f: "\<exists>sched' p'. run sched' P = Some p' \<and> pc_main p' = Summary" .
  from coordinator_sees_all_signals [THEN conjunct2, THEN conjunct1, rule_format,
      OF conjI [OF r]]
  have "signals_received \<lparr>numConns = 2, status = Running, pc_main = Summary,
           pc_driver = [Finished, Finished], shared_counter = 5, wg_counter = 0,
           chan_len = 0, chan_closed = True, signals_received = 2,
           signals_sent = [1, 1], allocated = [(0, 3), (1, 5::32 word)]\<rparr> = 2"
    by simp
  then show ?thesis using r r3 e f unfolding P_def by simp
qed

lemma odd_unat_add2: "odd (unat (c + 2 :: 32 word)) = odd (unat c)"
proof -
  have "unat (c + 2) = (unat c + 2) mod 2 ^ 32" by (simp add: unat_word_ariths)
  moreover have "(2::nat) dvd 2 ^ 32" by simp
  ultimately show ?thesis by (simp add: dvd_mod_iff)
qed

lemma seed_inv_init: "seed_inv (init_process n)"
  by (simp add: seed_inv_def init_process_def stream_ids_def)

lemma seed_inv_main_step:
  assumes inv: "seed_inv p" and st: "main_step p = Some p'"
  shows "seed_inv p'"
proof -
  have s: "set ((pc_driver p)[i := Started]) \<subseteq> insert Started (set (pc_driver p))" for i
    by (rule set_update_subset_insert)
  have "seed_inv (p\<lparr>pc_driver := (pc_driver p)[i := Started], pc_main := m\<rparr>)" for i m
    using inv s [of i] by (auto simp: seed_inv_def stream_ids_def)
  moreover have "seed_inv (p\<lparr>pc_main := m\<rparr>)" for m
    using inv by (simp add: seed_inv_def stream_ids_def)
  moreover have "seed_inv (p\<lparr>chan_closed := True, pc_main := m\<rparr>)" for m
    using inv by (simp add: seed_inv_def stream_ids_def)
  moreover have "seed_inv (p\<lparr>chan_len := l, signals_received := r, pc_main := m\<rparr>)" for l r m
    using inv by (simp add: seed_inv_def stream_ids_def)
  ultimately show ?thesis using st
    by (auto simp: main_step_def split: main_pc.splits if_splits)
qed

lemma seed_inv_driver_step:
  assumes inv: "seed_inv p" and st: "driver_step i p = Some p'"
  shows "seed_inv p'"
proof -
  from st have i: "i < length (pc_driver p)"
    by (simp add: driver_step_def split: if_splits)
  then have m: "pc_driver p ! i \<in> set (pc_driver p)" by (rule nth_mem)
  show ?thesis
  proof (cases "pc_driver p ! i = NotStarted \<or> pc_driver p ! i = Started")
    case True
    then have "pc_driver p ! i = Started" using st i by (auto simp: driver_step_def)
    with st i have "p' = p\<lparr>shared_counter := 1, pc_driver := (pc_driver p)[i := Seeded]\<rparr>"
      by (simp add: driver_step_def)
    then show ?thesis using inv by (simp add: seed_inv_def stream_ids_def)
  next
    case False
    with m have "\<not> (\<forall>d \<in> set (pc_driver p). d = NotStarted \<or> d = Started)" by blast
    with inv have o: "odd (unat (shared_counter p))"
      and a: "\<forall>v \<in> set (stream_ids p). odd (unat v)"
      by (simp_all add: seed_inv_def)
    from o have o2: "odd (unat (shared_counter p + 2))" by (simp add: odd_unat_add2)
    show ?thesis using st i False o o2 a
      by (auto simp: driver_step_def seed_inv_def stream_ids_def Let_def
          split: driver_pc.splits if_splits)
  qed
qed

lemma seed_inv_step: "seed_inv p \<Longrightarrow> step a p = Some p' \<Longrightarrow> seed_inv p'"
proof (cases a)
  case StepMain
  assume "seed_inv p" "step a p = Some p'"
  then show ?thesis using StepMain
    by (auto simp: step_def split: if_splits intro: seed_inv_main_step)
next
  case (StepDriver i)
  assume "seed_inv p" "step a p = Some p'"
  then show ?thesis using StepDriver
    by (auto simp: step_def split: if_splits intro: seed_inv_driver_step)
next
  case (StepFatal i)
  assume "seed_inv p" "step a p = Some p'"
  then show ?thesis using StepFatal
    by (auto simp: step_def fatal_step_def seed_inv_def stream_ids_def split: if_splits)
qed

lemma seed_inv_run: "seed_inv p \<Longrightarrow> run sched p = Some p' \<Longrightarrow> seed_inv p'"
proof (induction sched arbitrary: p)
  case Nil
  then show ?case by simp
next
  case (Cons a sched)
  from Cons.prems(2) obtain q where q: "step a p = Some q" "run sched q = Some p'"
    by (auto split: option.splits)
  from Cons.IH [OF seed_inv_step [OF Cons.prems(1) q(1)] q(2)] show ?case .
qed

lemma alloc_inv_init: "alloc_inv (init_process n)"
  by (simp add: alloc_inv_def init_process_def)

lemma alloc_inv_update:
  assumes inv: "alloc_inv p" and i: "i < length (pc_driver p)"
    and old: "pc_driver p ! i = NotStarted \<or> pc_driver p ! i = Started \<or> d = Flooding \<or> d = Signalled \<or> d = Finished"
    and new: "d = Started \<or> shared_counter p = 1 \<or> allocated p \<noteq> [] \<or>
      (pc_driver p ! i \<noteq> NotStarted \<and> pc_driver p ! i \<noteq> Started)"
  shows "alloc_inv (p\<lparr>pc_driver := (pc_driver p)[i := d]\<rparr>)"
proof -
  have 1: "fst e < length (pc_driver p) \<and>
        (pc_driver p)[i := d] ! fst e \<noteq> NotStarted \<and> (pc_driver p)[i := d] ! fst e \<noteq> Started \<and>
        (pc_driver p)[i := d] ! fst e \<noteq> Seeded" if e: "e \<in> set (allocated p)" for e
  proof (cases "fst e = i")
    case True
    with inv e have "pc_driver p ! i \<noteq> NotStarted" "pc_driver p ! i \<noteq> Started"
      by (auto simp: alloc_inv_def)
    with old True i show ?thesis by auto
  next
    case False
    with inv e show ?thesis by (auto simp: alloc_inv_def)
  qed
  have 2: "(\<forall>d' \<in> set ((pc_driver p)[i := d]). d' = NotStarted \<or> d' = Started) \<or> shared_counter p = 1"
    if a: "allocated p = []"
  proof -
    from inv a have k: "(\<forall>d \<in> set (pc_driver p). d = NotStarted \<or> d = Started) \<or> shared_counter p = 1"
      by (simp add: alloc_inv_def)
    from i have m: "pc_driver p ! i \<in> set (pc_driver p)" by (rule nth_mem)
    have s: "set ((pc_driver p)[i := d]) \<subseteq> insert d (set (pc_driver p))"
      by (rule set_update_subset_insert)
    from new a consider "d = Started" | "shared_counter p = 1"
      | "pc_driver p ! i \<noteq> NotStarted \<and> pc_driver p ! i \<noteq> Started" by blast
    then show ?thesis
    proof cases
      case 1
      with k s show ?thesis by auto
    next
      case 2
      then show ?thesis by simp
    next
      case 3
      with m have "\<not> (\<forall>d \<in> set (pc_driver p). d = NotStarted \<or> d = Started)" by blast
      with k show ?thesis by simp
    qed
  qed
  from inv have 3: "distinct (map fst (allocated p))" by (simp add: alloc_inv_def)
  show ?thesis using 1 2 3 by (simp add: alloc_inv_def)
qed

lemma alloc_inv_other:
  "alloc_inv (p\<lparr>pc_main := m\<rparr>) = alloc_inv p"
  "alloc_inv (p\<lparr>chan_closed := c\<rparr>) = alloc_inv p"
  "alloc_inv (p\<lparr>chan_len := l\<rparr>) = alloc_inv p"
  "alloc_inv (p\<lparr>signals_received := r\<rparr>) = alloc_inv p"
  "alloc_inv (p\<lparr>signals_sent := ss\<rparr>) = alloc_inv p"
  "alloc_inv (p\<lparr>wg_counter := w\<rparr>) = alloc_inv p"
  "alloc_inv (p\<lparr>status := st\<rparr>) = alloc_inv p"
  by (simp_all add: alloc_inv_def)

lemma alloc_inv_main_step:
  assumes inv: "alloc_inv p" and sy: "sync_inv p" and st: "main_step p = Some p'"
  shows "alloc_inv p'"
proof (cases "pc_main p")
  case (Launching i)
  show ?thesis
  proof (cases "i < numConns p")
    case True
    from sy Launching True have i: "i < length (pc_driver p)" "pc_driver p ! i = NotStarted"
      by (simp_all add: sync_inv_def)
    have p': "p' = (p\<lparr>pc_driver := (pc_driver p)[i := Started]\<rparr>)\<lparr>pc_main := Launching (i + 1)\<rparr>"
      using st Launching True by (simp add: main_step_def)
    have "alloc_inv (p\<lparr>pc_driver := (pc_driver p)[i := Started]\<rparr>)"
      using inv i by (intro alloc_inv_update) simp_all
    then show ?thesis by (simp add: p' alloc_inv_other)
  next
    case False
    then have "p' = p\<lparr>pc_main := Waiting\<rparr>" using st Launching by (simp add: main_step_def)
    then show ?thesis using inv by (simp add: alloc_inv_other)
  qed
next
  case Waiting
  with st inv show ?thesis by (auto simp: main_step_def alloc_inv_other split: if_splits)
next
  case Closing
  with st have "p' = (p\<lparr>chan_closed := True\<rparr>)\<lparr>pc_main := Receiving 0\<rparr>"
    by (simp add: main_step_def)
  then show ?thesis using inv by (simp add: alloc_inv_other)
next
  case (Receiving i)
  have "alloc_inv (((p\<lparr>chan_len := l\<rparr>)\<lparr>signals_received := r\<rparr>)\<lparr>pc_main := m\<rparr>)" for l r m
    using inv by (simp only: alloc_inv_other)
  then have "alloc_inv (p\<lparr>chan_len := l, signals_received := r, pc_main := m\<rparr>)" for l r m
    by simp
  moreover have "alloc_inv (p\<lparr>pc_main := m\<rparr>)" for m using inv by (simp add: alloc_inv_other)
  ultimately show ?thesis using st Receiving
    by (auto simp: main_step_def split: if_splits)
next
  case Summary
  with st show ?thesis by (simp add: main_step_def)
qed


lemma alloc_inv_reset: "alloc_inv p \<Longrightarrow> alloc_inv (p\<lparr>shared_counter := 1\<rparr>)"
  by (simp add: alloc_inv_def)

lemma alloc_inv_alloc:
  assumes inv: "alloc_inv p" and i: "i < length (pc_driver p)" and old: "pc_driver p ! i = Seeded"
  shows "alloc_inv (p\<lparr>shared_counter := c, allocated := allocated p @ [(i, v)],
           pc_driver := (pc_driver p)[i := Flooding]\<rparr>)"
proof -
  have ne: "fst e \<noteq> i" if "e \<in> set (allocated p)" for e
    using inv that old by (auto simp: alloc_inv_def)
  then have 1: "i \<notin> fst ` set (allocated p)" by auto
  have 2: "fst e < length (pc_driver p) \<and>
        (pc_driver p)[i := Flooding] ! fst e \<noteq> NotStarted \<and>
        (pc_driver p)[i := Flooding] ! fst e \<noteq> Started \<and>
        (pc_driver p)[i := Flooding] ! fst e \<noteq> Seeded" if "e \<in> set (allocated p)" for e
    using inv that ne [OF that] by (auto simp: alloc_inv_def)
  from inv have 3: "distinct (map fst (allocated p))" by (simp add: alloc_inv_def)
  show ?thesis using 1 2 3 i by (simp add: alloc_inv_def)
qed

lemma alloc_inv_driver_step:
  assumes inv: "alloc_inv p" and st: "driver_step i p = Some p'"
  shows "alloc_inv p'"
proof -
  from st have i: "i < length (pc_driver p)"
    by (simp add: driver_step_def split: if_splits)
  show ?thesis
  proof (cases "pc_driver p ! i")
    case NotStarted
    with st i show ?thesis by (simp add: driver_step_def)
  next
    case Started
    with st i have p': "p' = (p\<lparr>shared_counter := 1\<rparr>)
        \<lparr>pc_driver := (pc_driver (p\<lparr>shared_counter := 1\<rparr>))[i := Seeded]\<rparr>"
      by (simp add: driver_step_def)
    show ?thesis unfolding p'
      using i Started by (intro alloc_inv_update alloc_inv_reset inv) simp_all
  next
    case Seeded
    with st i have "p' = p\<lparr>shared_counter := shared_counter p + 2,
        allocated := allocated p @ [(i, shared_counter p + 2)],
        pc_driver := (pc_driver p)[i := Flooding]\<rparr>"
      by (simp add: driver_step_def Let_def)
    then show ?thesis using alloc_inv_alloc [OF inv i Seeded] by simp
  next
    case Flooding
    have "alloc_inv ((p\<lparr>chan_len := l\<rparr>)\<lparr>signals_sent := ss\<rparr>)" for l ss
      using inv by (simp only: alloc_inv_other)
    then have "alloc_inv ((p\<lparr>chan_len := l, signals_sent := ss\<rparr>)
        \<lparr>pc_driver := (pc_driver (p\<lparr>chan_len := l, signals_sent := ss\<rparr>))[i := Signalled]\<rparr>)"
      for l ss
      using i Flooding by (intro alloc_inv_update) simp_all
    then have "alloc_inv (p\<lparr>chan_len := l, signals_sent := ss,
        pc_driver := (pc_driver p)[i := Signalled]\<rparr>)" for l ss
      by simp
    moreover have "alloc_inv (p\<lparr>status := Panicked\<rparr>)" using inv by (simp add: alloc_inv_other)
    ultimately show ?thesis using st i Flooding
      by (auto simp: driver_step_def split: if_splits)
  next
    case Signalled
    have "alloc_inv (p\<lparr>wg_counter := w\<rparr>)" for w
      using inv by (simp only: alloc_inv_other)
    then have "alloc_inv ((p\<lparr>wg_counter := w\<rparr>)
        \<lparr>pc_driver := (pc_driver (p\<lparr>wg_counter := w\<rparr>))[i := Finished]\<rparr>)" for w
      using i Signalled by (intro alloc_inv_update) simp_all
    then have "alloc_inv (p\<lparr>wg_counter := w, pc_driver := (pc_driver p)[i := Finished]\<rparr>)" for w
      by simp
    moreover have "alloc_inv (p\<lparr>status := Panicked\<rparr>)" using inv by (simp add: alloc_inv_other)
    ultimately show ?thesis using st i Signalled
      by (auto simp: driver_step_def split: if_splits)
  next
    case Finished
    with st i show ?thesis by (simp add: driver_step_def)
  qed
qed

lemma alloc_inv_step:
  assumes "alloc_inv p" "sync_inv p" "step a p = Some p'"
  shows "alloc_inv p'"
proof (cases a)
  case StepMain
  with assms show ?thesis
    by (auto simp: step_def split: if_splits intro: alloc_inv_main_step)
next
  case (StepDriver i)
  with assms show ?thesis
    by (auto simp: step_def split: if_splits intro: alloc_inv_driver_step)
next
  case (StepFatal i)
  with assms show ?thesis
    by (auto simp: step_def fatal_step_def alloc_inv_other split: if_splits)
qed

lemma alloc_inv_run:
  "alloc_inv p \<Longrightarrow> sync_inv p \<Longrightarrow> run sched p = Some p' \<Longrightarrow> alloc_inv p'"
proof (induction sched arbitrary: p)
  case Nil
  then show ?case by simp
next
  case (Cons a sched)
  from Cons.prems(3) obtain q where q: "step a p = Some q" "run sched q = Some p'"
    by (auto split: option.splits)
  from Cons.IH [OF alloc_inv_step [OF Cons.prems(1,2) q(1)]
      sync_inv_step [OF Cons.prems(2) q(1)] q(2)]
  show ?case .
qed

lemma flow_from_other:
  "flow_from q (p\<lparr>chan_closed := c\<rparr>) = flow_from q p"
  "flow_from q (p\<lparr>chan_len := l\<rparr>) = flow_from q p"
  "flow_from q (p\<lparr>signals_received := r\<rparr>) = flow_from q p"
  "flow_from q (p\<lparr>signals_sent := ss\<rparr>) = flow_from q p"
  "flow_from q (p\<lparr>wg_counter := w\<rparr>) = flow_from q p"
  "flow_from q (p\<lparr>status := st\<rparr>) = flow_from q p"
  by (simp_all add: flow_from_def)

lemma flow_from_pc_main:
  "flow_from q p \<Longrightarrow> (\<And>i. m \<noteq> Launching i) \<Longrightarrow> flow_from q (p\<lparr>pc_main := m\<rparr>)"
  by (simp add: flow_from_def)

lemma flow_from_main_step:
  assumes inv: "flow_from q p" and st: "main_step p = Some p'"
  shows "flow_from q p'"
proof (cases "pc_main p")
  case (Launching i)
  with inv have "\<not> i < numConns p" by (simp add: flow_from_def)
  then have "p' = p\<lparr>pc_main := Waiting\<rparr>" using st Launching by (simp add: main_step_def)
  then show ?thesis using inv by (simp add: flow_from_pc_main)
next
  case Waiting
  with st have "p' = p\<lparr>pc_main := Closing\<rparr>" by (simp add: main_step_def split: if_splits)
  then show ?thesis using inv by (simp add: flow_from_pc_main)
next
  case Closing
  with st have "p' = (p\<lparr>chan_closed := True\<rparr>)\<lparr>pc_main := Receiving 0\<rparr>"
    by (simp add: main_step_def)
  then show ?thesis using inv by (simp add: flow_from_pc_main flow_from_other)
next
  case (Receiving i)
  have "flow_from q (((p\<lparr>chan_len := l\<rparr>)\<lparr>signals_received := r\<rparr>)\<lparr>pc_main := Receiving k\<rparr>)"
    for l r k
    using inv by (simp add: flow_from_pc_main flow_from_other)
  then have "flow_from q (p\<lparr>chan_len := l, signals_received := r, pc_main := Receiving k\<rparr>)"
    for l r k
    by simp
  moreover have "flow_from q (p\<lparr>pc_main := Receiving k\<rparr>)" for k
    using inv by (simp add: flow_from_pc_main)
  moreover have "flow_from q (p\<lparr>pc_main := Summary\<rparr>)"
    using inv by (simp add: flow_from_pc_main)
  ultimately show ?thesis using st Receiving
    by (auto simp: main_step_def split: if_splits)
next
  case Summary
  with st show ?thesis by (simp add: main_step_def)
qed

lemma flow_from_update:
  assumes inv: "flow_from q p" and i: "i < length (pc_driver p)"
    and old: "pc_driver p ! i \<noteq> Seeded"
    and new: "d \<noteq> NotStarted" "d \<noteq> Started" "d \<noteq> Seeded"
  shows "flow_from q (p\<lparr>pc_driver := (pc_driver p)[i := d]\<rparr>)"
proof -
  have s: "set ((pc_driver p)[i := d]) \<subseteq> insert d (set (pc_driver p))"
    by (rule set_update_subset_insert)
  have f: "length (filter (\<lambda>d. d = Seeded) ((pc_driver p)[i := d])) =
      length (filter (\<lambda>d. d = Seeded) (pc_driver p))"
    using i old new by (simp add: length_filter_update_same)
  show ?thesis using inv s new by (auto simp: flow_from_def f)
qed

lemma flow_from_alloc:
  assumes inv: "flow_from q p" and i: "i < length (pc_driver p)" and old: "pc_driver p ! i = Seeded"
  shows "flow_from q (p\<lparr>shared_counter := shared_counter p + 2,
        allocated := allocated p @ [(i, shared_counter p + 2)],
        pc_driver := (pc_driver p)[i := Flooding]\<rparr>)"
proof -
  have s: "set ((pc_driver p)[i := Flooding]) \<subseteq> insert Flooding (set (pc_driver p))"
    by (rule set_update_subset_insert)
  from length_filter_update [OF i, of "\<lambda>d. d = Seeded" Flooding] old
  have f: "Suc (length (filter (\<lambda>d. d = Seeded) ((pc_driver p)[i := Flooding]))) =
      length (filter (\<lambda>d. d = Seeded) (pc_driver p))"
    by simp
  from inv obtain new where n: "allocated p = allocated q @ new"
    "shared_counter p = shared_counter q + 2 * of_nat (length new)"
    "map snd new = map (\<lambda>k. shared_counter q + 2 * of_nat (Suc k)) [0..<length new]"
    "length new + length (filter (\<lambda>d. d = Seeded) (pc_driver p)) \<le> numConns p"
    by (auto simp: flow_from_def)
  let ?new = "new @ [(i, shared_counter p + 2)]"
  have 1: "allocated p @ [(i, shared_counter p + 2)] = allocated q @ ?new" using n(1) by simp
  have 2: "shared_counter p + 2 = shared_counter q + 2 * of_nat (length ?new)"
    using n(2) by (simp add: algebra_simps)
  have 3: "map snd ?new =
      map (\<lambda>k. shared_counter q + 2 * of_nat (Suc k)) [0..<length ?new]"
    using n(3) n(2) by (simp add: algebra_simps)
  have 4: "length ?new + length (filter (\<lambda>d. d = Seeded) ((pc_driver p)[i := Flooding]))
      \<le> numConns p"
    using n(4) f by simp
  have "\<exists>new'. allocated p @ [(i, shared_counter p + 2)] = allocated q @ new' \<and>
      shared_counter p + 2 = shared_counter q + 2 * of_nat (length new') \<and>
      map snd new' = map (\<lambda>k. shared_counter q + 2 * of_nat (Suc k)) [0..<length new'] \<and>
      length new' + length (filter (\<lambda>d. d = Seeded) ((pc_driver p)[i := Flooding]))
        \<le> numConns p"
    using 1 2 3 4 by blast
  then show ?thesis using inv s by (auto simp: flow_from_def)
qed

lemma flow_from_driver_step:
  assumes inv: "flow_from q p" and st: "driver_step i p = Some p'"
  shows "flow_from q p'"
proof -
  from st have i: "i < length (pc_driver p)"
    by (simp add: driver_step_def split: if_splits)
  then have "pc_driver p ! i \<in> set (pc_driver p)" by (rule nth_mem)
  with inv have n: "pc_driver p ! i \<noteq> NotStarted" "pc_driver p ! i \<noteq> Started"
    by (auto simp: flow_from_def)
  show ?thesis
  proof (cases "pc_driver p ! i")
    case NotStarted
    with n show ?thesis by simp
  next
    case Started
    with n show ?thesis by simp
  next
    case Seeded
    with st i have "p' = p\<lparr>shared_counter := shared_counter p + 2,
        allocated := allocated p @ [(i, shared_counter p + 2)],
        pc_driver := (pc_driver p)[i := Flooding]\<rparr>"
      by (simp add: driver_step_def Let_def)
    then show ?thesis using flow_from_alloc [OF inv i Seeded] by simp
  next
    case Flooding
    have "flow_from q ((p\<lparr>chan_len := l\<rparr>)\<lparr>signals_sent := ss\<rparr>)" for l ss
      using inv by (simp only: flow_from_other)
    then have "flow_from q ((p\<lparr>chan_len := l, signals_sent := ss\<rparr>)
        \<lparr>pc_driver := (pc_driver (p\<lparr>chan_len := l, signals_sent := ss\<rparr>))[i := Signalled]\<rparr>)"
      for l ss
      using i Flooding by (intro flow_from_update) simp_all
    then have "flow_from q (p\<lparr>chan_len := l, signals_sent := ss,
        pc_driver := (pc_driver p)[i := Signalled]\<rparr>)" for l ss
      by simp
    moreover have "flow_from q (p\<lparr>status := Panicked\<rparr>)"
      using inv by (simp add: flow_from_other)
    ultimately show ?thesis using st i Flooding
      by (auto simp: driver_step_def split: if_splits)
  next
    case Signalled
    have "flow_from q (p\<lparr>wg_counter := w\<rparr>)" for w
      using inv by (simp only: flow_from_other)
    then have "flow_from q ((p\<lparr>wg_counter := w\<rparr>)
        \<lparr>pc_driver := (pc_driver (p\<lparr>wg_counter := w\<rparr>))[i := Finished]\<rparr>)" for w
      using i Signalled by (intro flow_from_update) simp_all
    then have "flow_from q (p\<lparr>wg_counter := w, pc_driver := (pc_driver p)[i := Finished]\<rparr>)"
      for w
      by simp
    moreover have "flow_from q (p\<lparr>status := Panicked\<rparr>)"
      using inv by (simp add: flow_from_other)
    ultimately show ?thesis using st i Signalled
      by (auto simp: driver_step_def split: if_splits)
  next
    case Finished
    with st i show ?thesis by (simp add: driver_step_def)
  qed
qed

lemma flow_from_step:
  assumes "flow_from q p" "step a p = Some p'"
  shows "flow_from q p'"
proof (cases a)
  case StepMain
  with assms show ?thesis
    by (auto simp: step_def split: if_splits intro: flow_from_main_step)
next
  case (StepDriver i)
  with assms show ?thesis
    by (auto simp: step_def split: if_splits intro: flow_from_driver_step)
next
  case (StepFatal i)
  with assms show ?thesis
    by (auto simp: step_def fatal_step_def flow_from_other split: if_splits)
qed

lemma flow_from_run: "flow_from q p \<Longrightarrow> run sched p = Some p' \<Longrightarrow> flow_from q p'"
proof (induction sched arbitrary: p)
  case Nil
  then show ?case by simp
next
  case (Cons a sched)
  from Cons.prems(2) obtain r where r: "step a p = Some r" "run sched r = Some p'"
    by (auto split: option.splits)
  from Cons.IH [OF flow_from_step [OF Cons.prems(1) r(1)] r(2)] show ?case .
qed

lemma flow_from_start:
  assumes sy: "sync_inv q" and st: "\<forall>d \<in> set (pc_driver q). d \<noteq> NotStarted \<and> d \<noteq> Started"
  shows "flow_from q q"
proof -
  from sy have n: "length (pc_driver q) = numConns q" by (simp add: sync_inv_def)
  have l: "\<forall>i. pc_main q = Launching i \<longrightarrow> numConns q \<le> i"
  proof (intro allI impI)
    fix i assume m: "pc_main q = Launching i"
    show "numConns q \<le> i"
    proof (rule ccontr)
      assume "\<not> numConns q \<le> i"
      then have i: "i < numConns q" by simp
      with sy m have "pc_driver q ! i = NotStarted" "i < length (pc_driver q)"
        by (simp_all add: sync_inv_def)
      then have "NotStarted \<in> set (pc_driver q)" by (metis nth_mem)
      with st show False by blast
    qed
  qed
  have f: "length (filter (\<lambda>d. d = Seeded) (pc_driver q)) \<le> numConns q"
    using length_filter_le [of "\<lambda>d. d = Seeded" "pc_driver q"] n by simp
  show ?thesis using n l f st by (simp add: flow_from_def)
qed

lemma stream_id_inj:
  assumes "a < 2 ^ 31" "b < 2 ^ 31"
    and "(c + 2 * of_nat a :: 32 word) = c + 2 * of_nat b"
  shows "a = b"
proof -
  from assms(3) have "(of_nat (2 * a) :: 32 word) = of_nat (2 * b)" by simp
  then have "take_bit 32 (2 * a) = take_bit 32 (2 * b)"
    unfolding word_of_nat_eq_iff by simp
  moreover have "2 * a < 2 ^ 32" "2 * b < 2 ^ 32" using assms(1,2) by simp_all
  ultimately show ?thesis by (simp add: take_bit_nat_eq_self)
qed

lemma distinct_stream_ids:
  assumes "m \<le> 2 ^ 31"
  shows "distinct (map (\<lambda>k. c + 2 * of_nat k :: 32 word) [0..<m])"
proof -
  have "inj_on (\<lambda>k. c + 2 * of_nat k :: 32 word) (set [0..<m])"
  proof (rule inj_onI)
    fix a b assume "a \<in> set [0..<m]" "b \<in> set [0..<m]"
      and e: "(c + 2 * of_nat a :: 32 word) = c + 2 * of_nat b"
    then have "a < 2 ^ 31" "b < 2 ^ 31" using assms by simp_all
    then show "a = b" using e by (rule stream_id_inj)
  qed
  then show ?thesis by (simp add: distinct_map)
qed

lemma stream_ids_after:
  assumes n: "n \<le> 2 ^ 31" and r0: "run sched0 (init_process n) = Some q"
    and st: "\<forall>d \<in> set (pc_driver q). d \<noteq> NotStarted \<and> d \<noteq> Started"
    and r: "run sched q = Some p"
  shows "take (length (stream_ids q)) (stream_ids p) = stream_ids q"
    and "drop (length (stream_ids q)) (stream_ids p) =
      map (\<lambda>k. shared_counter q + 2 * of_nat (Suc k))
        [0..<length (stream_ids p) - length (stream_ids q)]"
    and "distinct (drop (length (stream_ids q)) (stream_ids p))"
    and "length (stream_ids p) - length (stream_ids q) \<le> length (pc_driver q)"
proof -
  from sync_inv_run [OF sync_inv_init r0] have sy: "sync_inv q" .
  from flow_from_run [OF flow_from_start [OF sy st] r] have f: "flow_from q p" .
  from numConns_run [OF r] numConns_run [OF r0] have nc: "numConns p = n" "numConns q = n"
    by (simp_all add: init_process_def)
  from f obtain new where new: "allocated p = allocated q @ new"
    "map snd new = map (\<lambda>k. shared_counter q + 2 * of_nat (Suc k)) [0..<length new]"
    "length new + length (filter (\<lambda>d. d = Seeded) (pc_driver p)) \<le> numConns p"
    by (auto simp: flow_from_def)
  have ids: "stream_ids p = stream_ids q @ map snd new"
    by (simp add: stream_ids_def new(1))
  then have len: "length (stream_ids p) - length (stream_ids q) = length new" by simp
  show "take (length (stream_ids q)) (stream_ids p) = stream_ids q" by (simp add: ids)
  show d: "drop (length (stream_ids q)) (stream_ids p) =
      map (\<lambda>k. shared_counter q + 2 * of_nat (Suc k))
        [0..<length (stream_ids p) - length (stream_ids q)]"
    unfolding len by (simp add: ids new(2))
  from new(3) nc n have m: "length new \<le> 2 ^ 31" by simp
  have "(\<lambda>k. shared_counter q + 2 * of_nat (Suc k) :: 32 word) =
      (\<lambda>k. (shared_counter q + 2) + 2 * of_nat k)"
    by (rule ext) (simp add: algebra_simps)
  then have "distinct (map (\<lambda>k. shared_counter q + 2 * of_nat (Suc k) :: 32 word)
      [0..<length new])"
    using distinct_stream_ids [OF m, of "shared_counter q + 2"] by simp
  then show "distinct (drop (length (stream_ids q)) (stream_ids p))"
    unfolding d len .
  from sy nc have "length (pc_driver q) = n" by (simp add: sync_inv_def)
  with new(3) nc show "length (stream_ids p) - length (stream_ids q) \<le> length (pc_driver q)"
    unfolding len by simp
qed

lemma run_append:
  "run (xs @ ys) p = (case run xs p of None \<Rightarrow> None | Some q \<Rightarrow> run ys q)"
  by (induction xs arbitrary: p) (simp_all split: option.split)

lemma store_step:
  assumes "step (StepDriver i) q0 = Some q" "pc_driver q0 ! i = Started"
  shows "shared_counter q = 1"
  using assms by (auto simp: step_def driver_step_def split: if_splits)

lemma stream_ids_seeded:
  assumes n: "n \<le> 2 ^ 31" and r0: "run sched0 (init_process n) = Some q"
    and se: "\<forall>d \<in> set (pc_driver q). d = Seeded"
    and r: "run sched q = Some p"
  shows "stream_ids p = map (\<lambda>k. 3 + 2 * of_nat k) [0..<length (stream_ids p)]"
    and "distinct (stream_ids p)"
proof -
  from sync_inv_run [OF sync_inv_init r0] have sy: "sync_inv q" .
  from alloc_inv_run [OF alloc_inv_init sync_inv_init r0] have al: "alloc_inv q" .
  have a: "allocated q = []"
  proof (rule ccontr)
    assume "allocated q \<noteq> []"
    then obtain e where e: "e \<in> set (allocated q)" by (cases "allocated q") auto
    with al have "fst e < length (pc_driver q)" "pc_driver q ! fst e \<noteq> Seeded"
      by (auto simp: alloc_inv_def)
    with se show False by (metis nth_mem)
  qed
  then have e: "stream_ids q = []" by (simp add: stream_ids_def)
  from se have st: "\<forall>d \<in> set (pc_driver q). d \<noteq> NotStarted \<and> d \<noteq> Started" by auto
  note after = stream_ids_after [OF n r0 st r, unfolded e list.size drop_0 minus_nat.diff_0]
  from after(3) show "distinct (stream_ids p)" .
  show "stream_ids p = map (\<lambda>k. 3 + 2 * of_nat k) [0..<length (stream_ids p)]"
  proof (cases "pc_driver q")
    case Nil
    with after(4) have "stream_ids p = []" by simp
    then show ?thesis by simp
  next
    case (Cons d ds)
    with se have "d = Seeded" by simp
    with Cons have "\<not> (\<forall>d \<in> set (pc_driver q). d = NotStarted \<or> d = Started)" by auto
    with al a have c: "shared_counter q = 1" by (simp add: alloc_inv_def)
    have "(\<lambda>k. 1 + 2 * of_nat (Suc k) :: 32 word) = (\<lambda>k. 3 + 2 * of_nat k)"
      by (rule ext) simp
    with after(2) c show ?thesis by simp
  qed
qed

lemma stream_ids_after_store:
  assumes n: "n \<le> 2 ^ 31" and r0: "run sched0 (init_process n) = Some q0"
    and s: "pc_driver q0 ! i = Started" "step (StepDriver i) q0 = Some q"
    and st: "\<forall>d \<in> set (pc_driver q). d \<noteq> NotStarted \<and> d \<noteq> Started"
    and r: "run sched q = Some p"
  shows "drop (length (stream_ids q)) (stream_ids p) =
      map (\<lambda>k. 3 + 2 * of_nat k) [0..<length (stream_ids p) - length (stream_ids q)]"
    and "distinct (drop (length (stream_ids q)) (stream_ids p))"
proof -
  have rq: "run (sched0 @ [StepDriver i]) (init_process n) = Some q"
    using r0 s(2) by (simp add: run_append)
  note after = stream_ids_after [OF n rq st r]
  from after(3) show "distinct (drop (length (stream_ids q)) (stream_ids p))" .
  have "(\<lambda>k. 1 + 2 * of_nat (Suc k) :: 32 word) = (\<lambda>k. 3 + 2 * of_nat k)"
    by (rule ext) simp
  with after(2) store_step [OF s(2) s(1)]
  show "drop (length (stream_ids q)) (stream_ids p) =
      map (\<lambda>k. 3 + 2 * of_nat k) [0..<length (stream_ids p) - length (stream_ids q)]"
    by simp
qed

subsection \<open>C2: the stream identifiers the drivers allocate\<close>

text \<open>
  Claim C2, as amended. In every interleaving of \<open>main\<close> with its \<open>n\<close> drivers,
  every stream identifier a driver has allocated is odd, and no driver has
  allocated twice. The identifiers need not differ between drivers, because each
  driver stores the seed 1 in the shared counter before it allocates. But if every
  driver has stored the seed before the first allocation, the identifiers are
  \<open>3, 5, 7, ...\<close> in the order of allocation, pairwise distinct. And in every
  run, from a state \<open>q\<close> in which no driver has its store still to come, the
  identifiers allocated earlier stay as they are and those allocated from \<open>q\<close> on
  are the counter of \<open>q\<close> plus \<open>2, 4, 6, ...\<close> in the order of allocation, pairwise
  distinct; when \<open>q\<close> is the state right after the last store, these are
  \<open>3, 5, 7, ...\<close> (they may repeat an identifier allocated before that store).
  All this for at most \<open>2 ^ 31\<close> drivers: the counter is a uint32.
\<close>

theorem allocated_stream_ids:
  "(run sched (init_process n) = Some p \<longrightarrow>
      (\<forall>v \<in> set (stream_ids p). odd (unat v)) \<and> distinct (map fst (allocated p)))
   \<and> (n \<le> 2 ^ 31 \<and> run sched0 (init_process n) = Some q \<and>
       (\<forall>d \<in> set (pc_driver q). d = Seeded) \<and> run sched q = Some p \<longrightarrow>
        stream_ids p = map (\<lambda>k. 3 + 2 * of_nat k) [0..<length (stream_ids p)] \<and>
        distinct (stream_ids p))
   \<and> (n \<le> 2 ^ 31 \<and> run sched0 (init_process n) = Some q \<and>
       (\<forall>d \<in> set (pc_driver q). d \<noteq> NotStarted \<and> d \<noteq> Started) \<and> run sched q = Some p \<longrightarrow>
        take (length (stream_ids q)) (stream_ids p) = stream_ids q \<and>
        drop (length (stream_ids q)) (stream_ids p) =
          map (\<lambda>k. shared_counter q + 2 * of_nat (Suc k))
            [0..<length (stream_ids p) - length (stream_ids q)] \<and>
        distinct (drop (length (stream_ids q)) (stream_ids p)))
   \<and> (n \<le> 2 ^ 31 \<and> run sched0 (init_process n) = Some q0 \<and>
       pc_driver q0 ! i = Started \<and> step (StepDriver i) q0 = Some q \<and>
       (\<forall>d \<in> set (pc_driver q). d \<noteq> NotStarted \<and> d \<noteq> Started) \<and> run sched q = Some p \<longrightarrow>
        drop (length (stream_ids q)) (stream_ids p) =
          map (\<lambda>k. 3 + 2 * of_nat k) [0..<length (stream_ids p) - length (stream_ids q)] \<and>
        distinct (drop (length (stream_ids q)) (stream_ids p)))"
proof (intro conjI impI)
  assume r: "run sched (init_process n) = Some p"
  from seed_inv_run [OF seed_inv_init r]
  show "\<forall>v \<in> set (stream_ids p). odd (unat v)" by (simp add: seed_inv_def)
  from alloc_inv_run [OF alloc_inv_init sync_inv_init r]
  show "distinct (map fst (allocated p))" by (simp add: alloc_inv_def)
next
  assume a: "n \<le> 2 ^ 31 \<and> run sched0 (init_process n) = Some q \<and>
       (\<forall>d \<in> set (pc_driver q). d = Seeded) \<and> run sched q = Some p"
  then have n: "n \<le> 2 ^ 31" and r0: "run sched0 (init_process n) = Some q"
    and se: "\<forall>d \<in> set (pc_driver q). d = Seeded" and r: "run sched q = Some p"
    by simp_all
  from stream_ids_seeded [OF n r0 se r]
  show "stream_ids p = map (\<lambda>k. 3 + 2 * of_nat k) [0..<length (stream_ids p)]"
    and "distinct (stream_ids p)" .
next
  assume a: "n \<le> 2 ^ 31 \<and> run sched0 (init_process n) = Some q \<and>
       (\<forall>d \<in> set (pc_driver q). d \<noteq> NotStarted \<and> d \<noteq> Started) \<and> run sched q = Some p"
  then have n: "n \<le> 2 ^ 31" and r0: "run sched0 (init_process n) = Some q"
    and st: "\<forall>d \<in> set (pc_driver q). d \<noteq> NotStarted \<and> d \<noteq> Started"
    and r: "run sched q = Some p"
    by simp_all
  from stream_ids_after(1-3) [OF n r0 st r]
  show "take (length (stream_ids q)) (stream_ids p) = stream_ids q"
    and "drop (length (stream_ids q)) (stream_ids p) =
          map (\<lambda>k. shared_counter q + 2 * of_nat (Suc k))
            [0..<length (stream_ids p) - length (stream_ids q)]"
    and "distinct (drop (length (stream_ids q)) (stream_ids p))" .
next
  assume a: "n \<le> 2 ^ 31 \<and> run sched0 (init_process n) = Some q0 \<and>
       pc_driver q0 ! i = Started \<and> step (StepDriver i) q0 = Some q \<and>
       (\<forall>d \<in> set (pc_driver q). d \<noteq> NotStarted \<and> d \<noteq> Started) \<and> run sched q = Some p"
  then have n: "n \<le> 2 ^ 31" and r0: "run sched0 (init_process n) = Some q0"
    and s: "pc_driver q0 ! i = Started" "step (StepDriver i) q0 = Some q"
    and st: "\<forall>d \<in> set (pc_driver q). d \<noteq> NotStarted \<and> d \<noteq> Started"
    and r: "run sched q = Some p"
    by simp_all
  from stream_ids_after_store [OF n r0 s st r]
  show "drop (length (stream_ids q)) (stream_ids p) =
          map (\<lambda>k. 3 + 2 * of_nat k) [0..<length (stream_ids p) - length (stream_ids q)]"
    and "distinct (drop (length (stream_ids q)) (stream_ids p))" .
qed

theorem allocated_stream_ids_witness:
  "run [StepMain, StepDriver 0, StepMain, StepDriver 1, StepMain, StepDriver 2] (init_process 3) =
     Some \<lparr>numConns = 3, status = Running, pc_main = Launching 3,
           pc_driver = [Seeded, Seeded, Seeded], shared_counter = 1, wg_counter = 3,
           chan_len = 0, chan_closed = False, signals_received = 0,
           signals_sent = [0, 0, 0], allocated = []\<rparr>
   \<and> run [StepDriver 2, StepDriver 0, StepDriver 1]
       \<lparr>numConns = 3, status = Running, pc_main = Launching 3,
        pc_driver = [Seeded, Seeded, Seeded], shared_counter = 1, wg_counter = 3,
        chan_len = 0, chan_closed = False, signals_received = 0,
        signals_sent = [0, 0, 0], allocated = []\<rparr> =
     Some \<lparr>numConns = 3, status = Running, pc_main = Launching 3,
           pc_driver = [Flooding, Flooding, Flooding], shared_counter = 7, wg_counter = 3,
           chan_len = 0, chan_closed = False, signals_received = 0,
           signals_sent = [0, 0, 0], allocated = [(2, 3), (0, 5), (1, 7)]\<rparr>
   \<and> stream_ids \<lparr>numConns = 3, status = Running, pc_main = Launching 3,
           pc_driver = [Flooding, Flooding, Flooding], shared_counter = 7, wg_counter = 3,
           chan_len = 0, chan_closed = False, signals_received = 0,
           signals_sent = [0, 0, 0], allocated = [(2, 3), (0, 5), (1, 7)]\<rparr> = [3, 5, 7]
   \<and> distinct (stream_ids \<lparr>numConns = 3, status = Running, pc_main = Launching 3,
           pc_driver = [Flooding, Flooding, Flooding], shared_counter = 7, wg_counter = 3,
           chan_len = 0, chan_closed = False, signals_received = 0,
           signals_sent = [0, 0, 0], allocated = [(2, 3), (0, 5), (1, 7)]\<rparr>)
   \<and> odd (unat (3 :: 32 word)) \<and> odd (unat (5 :: 32 word)) \<and> odd (unat (7 :: 32 word))
   \<and> run [StepMain, StepDriver 0, StepMain, StepDriver 1, StepDriver 0, StepMain]
       (init_process 3) =
     Some \<lparr>numConns = 3, status = Running, pc_main = Launching 3,
           pc_driver = [Flooding, Seeded, Started], shared_counter = 3, wg_counter = 3,
           chan_len = 0, chan_closed = False, signals_received = 0,
           signals_sent = [0, 0, 0], allocated = [(0, 3)]\<rparr>
   \<and> step (StepDriver 2)
       \<lparr>numConns = 3, status = Running, pc_main = Launching 3,
        pc_driver = [Flooding, Seeded, Started], shared_counter = 3, wg_counter = 3,
        chan_len = 0, chan_closed = False, signals_received = 0,
        signals_sent = [0, 0, 0], allocated = [(0, 3)]\<rparr> =
     Some \<lparr>numConns = 3, status = Running, pc_main = Launching 3,
           pc_driver = [Flooding, Seeded, Seeded], shared_counter = 1, wg_counter = 3,
           chan_len = 0, chan_closed = False, signals_received = 0,
           signals_sent = [0, 0, 0], allocated = [(0, 3)]\<rparr>
   \<and> run [StepDriver 1, StepDriver 2]
       \<lparr>numConns = 3, status = Running, pc_main = Launching 3,
        pc_driver = [Flooding, Seeded, Seeded], shared_counter = 1, wg_counter = 3,
        chan_len = 0, chan_closed = False, signals_received = 0,
        signals_sent = [0, 0, 0], allocated = [(0, 3)]\<rparr> =
     Some \<lparr>numConns = 3, status = Running, pc_main = Launching 3,
           pc_driver = [Flooding, Flooding, Flooding], shared_counter = 5, wg_counter = 3,
           chan_len = 0, chan_closed = False, signals_received = 0,
           signals_sent = [0, 0, 0], allocated = [(0, 3), (1, 3), (2, 5)]\<rparr>
   \<and> stream_ids \<lparr>numConns = 3, status = Running, pc_main = Launching 3,
           pc_driver = [Flooding, Flooding, Flooding], shared_counter = 5, wg_counter = 3,
           chan_len = 0, chan_closed = False, signals_received = 0,
           signals_sent = [0, 0, 0], allocated = [(0, 3), (1, 3), (2, 5)]\<rparr> = [3, 3, 5]
   \<and> drop 1 (stream_ids \<lparr>numConns = 3, status = Running, pc_main = Launching 3,
           pc_driver = [Flooding, Flooding, Flooding], shared_counter = 5, wg_counter = 3,
           chan_len = 0, chan_closed = False, signals_received = 0,
           signals_sent = [0, 0, 0], allocated = [(0, 3), (1, 3), (2, 5)]\<rparr>) = [3, 5]
   \<and> distinct (drop 1 (stream_ids \<lparr>numConns = 3, status = Running, pc_main = Launching 3,
           pc_driver = [Flooding, Flooding, Flooding], shared_counter = 5, wg_counter = 3,
           chan_len = 0, chan_closed = False, signals_received = 0,
           signals_sent = [0, 0, 0], allocated = [(0, 3), (1, 3), (2, 5)]\<rparr>))
   \<and> run [StepMain, StepDriver 0, StepMain, StepDriver 1, StepMain, StepDriver 2, StepDriver 0]
       (init_process 3) =
     Some \<lparr>numConns = 3, status = Running, pc_main = Launching 3,
           pc_driver = [Flooding, Seeded, Seeded], shared_counter = 3, wg_counter = 3,
           chan_len = 0, chan_closed = False, signals_received = 0,
           signals_sent = [0, 0, 0], allocated = [(0, 3)]\<rparr>
   \<and> run [StepDriver 2, StepDriver 1]
       \<lparr>numConns = 3, status = Running, pc_main = Launching 3,
        pc_driver = [Flooding, Seeded, Seeded], shared_counter = 3, wg_counter = 3,
        chan_len = 0, chan_closed = False, signals_received = 0,
        signals_sent = [0, 0, 0], allocated = [(0, 3)]\<rparr> =
     Some \<lparr>numConns = 3, status = Running, pc_main = Launching 3,
           pc_driver = [Flooding, Flooding, Flooding], shared_counter = 7, wg_counter = 3,
           chan_len = 0, chan_closed = False, signals_received = 0,
           signals_sent = [0, 0, 0], allocated = [(0, 3), (2, 5), (1, 7)]\<rparr>
   \<and> take 1 (stream_ids \<lparr>numConns = 3, status = Running, pc_main = Launching 3,
           pc_driver = [Flooding, Flooding, Flooding], shared_counter = 7, wg_counter = 3,
           chan_len = 0, chan_closed = False, signals_received = 0,
           signals_sent = [0, 0, 0], allocated = [(0, 3), (2, 5), (1, 7)]\<rparr>) = [3]
   \<and> drop 1 (stream_ids \<lparr>numConns = 3, status = Running, pc_main = Launching 3,
           pc_driver = [Flooding, Flooding, Flooding], shared_counter = 7, wg_counter = 3,
           chan_len = 0, chan_closed = False, signals_received = 0,
           signals_sent = [0, 0, 0], allocated = [(0, 3), (2, 5), (1, 7)]\<rparr>) = [3 + 2, 3 + 4]
   \<and> distinct (drop 1 (stream_ids \<lparr>numConns = 3, status = Running, pc_main = Launching 3,
           pc_driver = [Flooding, Flooding, Flooding], shared_counter = 7, wg_counter = 3,
           chan_len = 0, chan_closed = False, signals_received = 0,
           signals_sent = [0, 0, 0], allocated = [(0, 3), (2, 5), (1, 7)]\<rparr>))"
proof -
  define Q where "Q = \<lparr>numConns = 3, status = Running, pc_main = Launching 3,
           pc_driver = [Seeded, Seeded, Seeded], shared_counter = 1, wg_counter = 3,
           chan_len = 0, chan_closed = False, signals_received = 0,
           signals_sent = [0, 0, 0], allocated = []\<rparr>"
  define P where "P = \<lparr>numConns = 3, status = Running, pc_main = Launching 3,
           pc_driver = [Flooding, Flooding, Flooding], shared_counter = 7, wg_counter = 3,
           chan_len = 0, chan_closed = False, signals_received = 0,
           signals_sent = [0, 0, 0], allocated = [(2, 3), (0, 5), (1, 7)]\<rparr>"
  define A0 where "A0 = \<lparr>numConns = 3, status = Running, pc_main = Launching 3,
           pc_driver = [Flooding, Seeded, Started], shared_counter = 3, wg_counter = 3,
           chan_len = 0, chan_closed = False, signals_received = 0,
           signals_sent = [0, 0, 0], allocated = [(0, 3)]\<rparr>"
  define A where "A = \<lparr>numConns = 3, status = Running, pc_main = Launching 3,
           pc_driver = [Flooding, Seeded, Seeded], shared_counter = 1, wg_counter = 3,
           chan_len = 0, chan_closed = False, signals_received = 0,
           signals_sent = [0, 0, 0], allocated = [(0, 3)]\<rparr>"
  define B where "B = \<lparr>numConns = 3, status = Running, pc_main = Launching 3,
           pc_driver = [Flooding, Flooding, Flooding], shared_counter = 5, wg_counter = 3,
           chan_len = 0, chan_closed = False, signals_received = 0,
           signals_sent = [0, 0, 0], allocated = [(0, 3), (1, 3), (2, 5)]\<rparr>"
  define C where "C = \<lparr>numConns = 3, status = Running, pc_main = Launching 3,
           pc_driver = [Flooding, Seeded, Seeded], shared_counter = 3, wg_counter = 3,
           chan_len = 0, chan_closed = False, signals_received = 0,
           signals_sent = [0, 0, 0], allocated = [(0, 3)]\<rparr>"
  define D where "D = \<lparr>numConns = 3, status = Running, pc_main = Launching 3,
           pc_driver = [Flooding, Flooding, Flooding], shared_counter = 7, wg_counter = 3,
           chan_len = 0, chan_closed = False, signals_received = 0,
           signals_sent = [0, 0, 0], allocated = [(0, 3), (2, 5), (1, 7)]\<rparr>"
  have n: "(3::nat) \<le> 2 ^ 31" by simp
  have r0: "run [StepMain, StepDriver 0, StepMain, StepDriver 1, StepMain, StepDriver 2]
      (init_process 3) = Some Q"
    by (simp add: Q_def init_process_def step_def main_step_def driver_step_def numeral_3_eq_3)
  have r: "run [StepDriver 2, StepDriver 0, StepDriver 1] Q = Some P"
    by (simp add: Q_def P_def step_def driver_step_def Let_def)
  have rr: "run ([StepMain, StepDriver 0, StepMain, StepDriver 1, StepMain, StepDriver 2]
      @ [StepDriver 2, StepDriver 0, StepDriver 1]) (init_process 3) = Some P"
    using r0 r
    by (simp add: Q_def init_process_def step_def main_step_def driver_step_def numeral_3_eq_3)
  have se: "\<forall>d \<in> set (pc_driver Q). d = Seeded" by (simp add: Q_def)
  have ids: "stream_ids P = [3, 5, 7]" by (simp add: P_def stream_ids_def)
  from allocated_stream_ids [THEN conjunct1, rule_format, OF rr]
  have o: "\<forall>v \<in> set (stream_ids P). odd (unat v)" by simp
  from allocated_stream_ids [THEN conjunct2, THEN conjunct1, rule_format,
      OF conjI [OF n conjI [OF r0 conjI [OF se r]]]]
  have d: "distinct (stream_ids P)" by simp
  have a0: "run [StepMain, StepDriver 0, StepMain, StepDriver 1, StepDriver 0, StepMain]
      (init_process 3) = Some A0"
    by (simp add: A0_def init_process_def step_def main_step_def driver_step_def
        numeral_3_eq_3 Let_def)
  have a: "pc_driver A0 ! 2 = Started" "step (StepDriver 2) A0 = Some A"
    by (simp_all add: A0_def A_def step_def driver_step_def)
  have ast: "\<forall>d \<in> set (pc_driver A). d \<noteq> NotStarted \<and> d \<noteq> Started" by (simp add: A_def)
  have b: "run [StepDriver 1, StepDriver 2] A = Some B"
    by (simp add: A_def B_def step_def driver_step_def Let_def)
  have la: "length (stream_ids A) = 1" by (simp add: A_def stream_ids_def)
  have idb: "stream_ids B = [3, 3, 5]" by (simp add: B_def stream_ids_def)
  note tb = allocated_stream_ids [THEN conjunct2, THEN conjunct2, THEN conjunct2, rule_format,
      OF conjI [OF n conjI [OF a0 conjI [OF a(1) conjI [OF a(2) conjI [OF ast b]]]]],
      unfolded la]
  have db: "drop 1 (stream_ids B) = map (\<lambda>k. 3 + 2 * of_nat k) [0..<length (stream_ids B) - 1]"
    "distinct (drop 1 (stream_ids B))"
    using tb [THEN conjunct1] tb [THEN conjunct2] .
  have u2: "[0..<2] = [0, Suc 0]" by code_simp
  from db(1) have db1: "drop 1 (stream_ids B) = [3, 5]" by (simp add: idb u2)
  have c0: "run [StepMain, StepDriver 0, StepMain, StepDriver 1, StepMain, StepDriver 2,
      StepDriver 0] (init_process 3) = Some C"
    by (simp add: C_def init_process_def step_def main_step_def driver_step_def
        numeral_3_eq_3 Let_def)
  have cst: "\<forall>d \<in> set (pc_driver C). d \<noteq> NotStarted \<and> d \<noteq> Started" by (simp add: C_def)
  have cd: "run [StepDriver 2, StepDriver 1] C = Some D"
    by (simp add: C_def D_def step_def driver_step_def Let_def)
  have lc: "length (stream_ids C) = 1" "stream_ids C = [3]" "shared_counter C = 3"
    by (simp_all add: C_def stream_ids_def)
  have ld: "length (stream_ids D) = 3" by (simp add: D_def stream_ids_def)
  note td = allocated_stream_ids [THEN conjunct2, THEN conjunct2, THEN conjunct1, rule_format,
      OF conjI [OF n conjI [OF c0 conjI [OF cst cd]]], unfolded lc(1) lc(3) ld, unfolded lc(2)]
  have dd: "take 1 (stream_ids D) = [3]"
    "drop 1 (stream_ids D) = map (\<lambda>k. 3 + 2 * of_nat (Suc k)) [0..<3 - 1]"
    "distinct (drop 1 (stream_ids D))"
    using td [THEN conjunct1] td [THEN conjunct2, THEN conjunct1]
      td [THEN conjunct2, THEN conjunct2] .
  from dd(2) have dd2: "drop 1 (stream_ids D) = [3 + 2, 3 + 4]" by (simp add: u2)
  show ?thesis
    using r0 r ids d o a0 a(2) b idb db1 db(2) c0 cd dd(1) dd2 dd(3)
    unfolding Q_def P_def A0_def A_def B_def C_def D_def by simp
qed

text \<open>
  Claim C2 as stated fails on this run: three drivers started one after another,
  each storing the seed and allocating before the next is started (a stagger longer
  than the handshake). All three get the stream identifier 3.
\<close>

theorem staggered_drivers_share_stream_id:
  "map_option stream_ids
     (run [StepMain, StepDriver 0, StepDriver 0, StepMain, StepDriver 1, StepDriver 1,
           StepMain, StepDriver 2, StepDriver 2] (init_process 3)) = Some [3, 3, 3]
   \<and> map_option (distinct \<circ> stream_ids)
     (run [StepMain, StepDriver 0, StepDriver 0, StepMain, StepDriver 1, StepDriver 1,
           StepMain, StepDriver 2, StepDriver 2] (init_process 3)) = Some False"
  by (simp add: init_process_def step_def main_step_def driver_step_def stream_ids_def
      numeral_3_eq_3 Let_def)

end
